theory Spec2Isabelle
  imports Main "HOL-Library.Word" "HOL-Library.Multiset" "HOL-Library.Sublist"
begin

section \<open>Data model of hlsdl.go\<close>

text \<open>
  Go values of type \<open>error\<close> are modelled by their message text (\<open>err.Error()\<close>);
  the run-time panics (an index out of range, a negative \<open>WaitGroup\<close> counter) are a
  separate datatype.  File contents and
  HTTP bodies are byte lists, file sizes and content lengths are \<open>int64\<close>.
\<close>

type_synonym bytes = "8 word list"
type_synonym int64 = "64 word"  \<comment> \<open>two's complement, read with \<open>sint\<close>\<close>
type_synonym uint64 = "64 word"

datatype error = Err string

fun Error :: "error \<Rightarrow> string" where
  "Error (Err msg) = msg"

datatype panic = IndexOutOfRange int nat | NegativeWaitGroupCounter

text \<open>The embedded \<open>m3u8.MediaSegment\<close> contributes \<open>SeqId\<close>, \<open>URI\<close> and \<open>Key\<close>.\<close>

record key =
  Method :: string
  KeyURI :: string
  IV :: string

record segment =
  SeqId :: uint64
  URI :: string
  Key :: "key option"
  Path :: string
  Exists :: bool

record DownloadResult =
  ResErr :: "error option"
  ResSeqId :: uint64

record HlsDl =
  headers :: "(string \<times> string) list"
  dir :: string
  hlsURL :: string
  workers :: int
  enableBar :: bool
  filename :: string
  continueDownloading :: bool
  checkAllSegments :: bool

record request =
  ReqMethod :: string
  ReqURL :: string
  ReqHeader :: "(string \<times> string) list"

record response =
  StatusCode :: int
  Status :: string
  Body :: bytes
  ContentLength :: int64

text \<open>
  The staging directory is a finite map from paths to the contents of regular files.
\<close>

type_synonym files = "string \<rightharpoonup> bytes"

text \<open>
  What the outside world answers during one call: \<open>newRequest\<close> (a function of the
  repository that is not part of \<open>hlsdl.go\<close>, taken as a parameter), the HTTP client,
  \<open>os.Stat\<close>, \<open>os.Create\<close> and \<open>io.Copy\<close>.  \<open>io_copy\<close> answers \<open>None\<close> when the whole
  body reaches the file and \<open>Some (e, n)\<close> when the copy stops with error \<open>e\<close> after
  \<open>n\<close> bytes.
\<close>

record io =
  newRequest :: "string \<Rightarrow> (string \<times> string) list \<Rightarrow> string \<Rightarrow> error + request"
  client_do :: "request \<Rightarrow> error + response"
  os_stat :: "string \<Rightarrow> error + int64"
  os_create :: "string \<Rightarrow> error option"
  io_copy :: "string \<Rightarrow> bytes \<Rightarrow> (error \<times> nat) option"

section \<open>Staging file names\<close>

text \<open>\<open>fmt.Sprintf("seg%06d.ts", segment.SeqId)\<close>: decimal digits, zero-padded to width 6.\<close>

definition digit_char :: "nat \<Rightarrow> char" where
  "digit_char d = char_of (48 + d)"

fun decimal :: "nat \<Rightarrow> string" where
  "decimal n = (if n < 10 then [digit_char n] else decimal (n div 10) @ [digit_char (n mod 10)])"

declare decimal.simps [simp del]

definition pad_zero :: "nat \<Rightarrow> string \<Rightarrow> string" where
  "pad_zero w s = replicate (w - length s) (CHR ''0'') @ s"

definition segName :: "uint64 \<Rightarrow> string" where
  "segName sid = ''seg'' @ pad_zero 6 (decimal (unat sid)) @ ''.ts''"

text \<open>
  Lines 213-214 of the dispatch routine.  \<open>filepath.Join\<close> belongs to the Go library
  and is the parameter \<open>pjoin\<close>.
\<close>

definition stagingPath :: "(string \<Rightarrow> string \<Rightarrow> string) \<Rightarrow> string \<Rightarrow> uint64 \<Rightarrow> string" where
  "stagingPath pjoin d sid = pjoin d (segName sid)"

definition assign_path :: "(string \<Rightarrow> string \<Rightarrow> string) \<Rightarrow> HlsDl \<Rightarrow> segment \<Rightarrow> segment" where
  "assign_path pjoin h seg = seg\<lparr>Path := stagingPath pjoin (dir h) (SeqId seg)\<rparr>"

text \<open>Reading a decimal field back, used to state that the name determines the id.\<close>

definition digit_value :: "char \<Rightarrow> nat" where
  "digit_value c = of_char c - 48"

definition decimal_value :: "string \<Rightarrow> nat" where
  "decimal_value s = foldl (\<lambda>a c. 10 * a + digit_value c) 0 s"

section \<open>Fetching one segment\<close>

text \<open>\<open>downloadSegment\<close>, lines 79-106.  The result is the returned error and the new
  staging directory.\<close>

definition downloadSegment :: "HlsDl \<Rightarrow> io \<Rightarrow> files \<Rightarrow> segment \<Rightarrow> error option \<times> files" where
  "downloadSegment h w fs seg =
     (case newRequest w (URI seg) (headers h) ''GET'' of
        Inl e \<Rightarrow> (Some e, fs)
      | Inr req \<Rightarrow>
          (case client_do w req of
             Inl e \<Rightarrow> (Some e, fs)
           | Inr res \<Rightarrow>
               if StatusCode res \<noteq> 200 then (Some (Err (Status res)), fs)
               else
                 (case os_create w (Path seg) of
                    Some e \<Rightarrow> (Some e, fs)
                  | None \<Rightarrow>
                      (case io_copy w (Path seg) (Body res) of
                         Some (e, n) \<Rightarrow> (Some e, fs(Path seg \<mapsto> take n (Body res)))
                       | None \<Rightarrow> (None, fs(Path seg \<mapsto> Body res))))))"

text \<open>\<open>getSegmentSize\<close> (lines 311-324) and \<open>getFileSize\<close> (lines 326-332) return Go's
  pair of a size and an error.\<close>

definition getSegmentSize :: "HlsDl \<Rightarrow> io \<Rightarrow> segment \<Rightarrow> int64 \<times> error option" where
  "getSegmentSize h w seg =
     (case newRequest w (URI seg) (headers h) ''HEAD'' of
        Inl e \<Rightarrow> (0, Some e)
      | Inr req \<Rightarrow>
          (case client_do w req of
             Inl e \<Rightarrow> (0, Some e)
           | Inr res \<Rightarrow> (ContentLength res, None)))"

definition getFileSize :: "io \<Rightarrow> segment \<Rightarrow> int64 \<times> error option" where
  "getFileSize w seg =
     (case os_stat w (Path seg) of
        Inl e \<Rightarrow> (0, Some e)
      | Inr sz \<Rightarrow> (sz, None))"

section \<open>The resume scan\<close>

text \<open>
  Lines 122-164 of \<open>downloadSegments\<close>, after \<open>filepath.Glob\<close> has returned the list
  \<open>files\<close>.  The scan yields the segments and, as a trace of its network activity, the
  file names for which it asked both sizes, in the order of the calls.

  Thorough mode, lines 124-137.
\<close>

type_synonym scan_state = "segment list \<times> string list"

definition size_match :: "HlsDl \<Rightarrow> io \<Rightarrow> segment \<Rightarrow> bool" where
  "size_match h w seg =
     (case getFileSize w seg of (l1, e1) \<Rightarrow>
      case getSegmentSize h w seg of (l2, e2) \<Rightarrow>
        e1 = None \<and> e2 = None \<and> l1 = l2 \<and> l1 \<noteq> 0)"

fun check_against :: "HlsDl \<Rightarrow> io \<Rightarrow> string list \<Rightarrow> segment \<Rightarrow> segment" where
  "check_against h w [] seg = seg"
| "check_against h w (file # rest) seg =
     check_against h w rest
       (if Path seg = file
        then (if size_match h w seg then seg\<lparr>Exists := True\<rparr> else seg)
        else seg)"

definition scan_thorough :: "HlsDl \<Rightarrow> io \<Rightarrow> string list \<Rightarrow> segment list \<Rightarrow> scan_state" where
  "scan_thorough h w files segs =
     (map (check_against h w files) segs,
      concat (map (\<lambda>seg. filter (\<lambda>file. Path seg = file) files) segs))"

text \<open>
  Fast mode, lines 140-163.  \<open>files[i]\<close> is a checked read: outside the slice the Go
  run time panics.  The read sits inside the loop over the segments, so it happens only
  when there is a segment.
\<close>

definition index :: "'a list \<Rightarrow> int \<Rightarrow> panic + 'a" where
  "index xs i =
     (if 0 \<le> i \<and> i < int (length xs) then Inr (xs ! nat i)
      else Inl (IndexOutOfRange i (length xs)))"

definition trust :: "string \<Rightarrow> segment \<Rightarrow> segment" where
  "trust file seg = (if Path seg = file then seg\<lparr>Exists := True\<rparr> else seg)"

function trust_loop :: "string list \<Rightarrow> int \<Rightarrow> segment list \<Rightarrow> panic + segment list" where
  "trust_loop files i segs =
     (if 0 \<le> i then
        (if segs = [] then trust_loop files (i - 1) segs
         else
           (case index files i of
              Inl p \<Rightarrow> Inl p
            | Inr file \<Rightarrow> trust_loop files (i - 1) (map (trust file) segs)))
      else Inr segs)"
  by pat_completeness auto
termination
  by (relation "measure (\<lambda>(files, i, segs). nat (i + 1))") auto

declare trust_loop.simps [simp del]

text \<open>
  Line 156 compares the two-valued results of \<open>getFileSize\<close> and \<open>getSegmentSize\<close> with
  \<open>==\<close>.  Go defines no such comparison, so the reading of that line is the parameter
  \<open>same\<close>, and every result below holds for all readings.  \<open>same_sizes\<close> (the sizes
  agree, the errors are ignored) and \<open>same_results\<close> (both components agree) are two.
\<close>

type_synonym comparison = "int64 \<times> error option \<Rightarrow> int64 \<times> error option \<Rightarrow> bool"

definition same_sizes :: comparison where
  "same_sizes a b = (fst a = fst b)"

definition same_results :: comparison where
  "same_results a b = (a = b)"

definition verify :: "comparison \<Rightarrow> HlsDl \<Rightarrow> io \<Rightarrow> string \<Rightarrow> segment \<Rightarrow> segment" where
  "verify same h w file seg =
     (if Path seg \<noteq> file then seg
      else if same (getFileSize w seg) (getSegmentSize h w seg) then seg\<lparr>Exists := True\<rparr>
      else seg)"

function verify_loop ::
  "comparison \<Rightarrow> HlsDl \<Rightarrow> io \<Rightarrow> string list \<Rightarrow> int \<Rightarrow> int \<Rightarrow> scan_state \<Rightarrow> panic + scan_state" where
  "verify_loop same h w files lo i (segs, probed) =
     (if lo \<le> i then
        (if segs = [] then verify_loop same h w files lo (i - 1) (segs, probed)
         else
           (case index files i of
              Inl p \<Rightarrow> Inl p
            | Inr file \<Rightarrow>
                verify_loop same h w files lo (i - 1)
                  (map (verify same h w file) segs,
                   probed @ map Path (filter (\<lambda>seg. Path seg = file) segs))))
      else Inr (segs, probed))"
  by pat_completeness auto
termination
  by (relation "measure (\<lambda>(same, h, w, files, lo, i, st). nat (i - lo + 1))") auto

declare verify_loop.simps [simp del]

definition scan_fast ::
  "comparison \<Rightarrow> HlsDl \<Rightarrow> io \<Rightarrow> string list \<Rightarrow> segment list \<Rightarrow> panic + scan_state" where
  "scan_fast same h w files segs =
     (case trust_loop files (int (length files) - 1 - workers h) segs of
        Inl p \<Rightarrow> Inl p
      | Inr segs1 \<Rightarrow>
          verify_loop same h w files (int (length files) - 1 - workers h)
            (int (length files) - 1) (segs1, []))"

definition resume_scan ::
  "comparison \<Rightarrow> HlsDl \<Rightarrow> io \<Rightarrow> string list \<Rightarrow> segment list \<Rightarrow> panic + scan_state" where
  "resume_scan same h w files segs =
     (if checkAllSegments h then Inr (scan_thorough h w files segs)
      else scan_fast same h w files segs)"

section \<open>Joining the segments\<close>

text \<open>
  What the disk answers during \<open>join\<close>: \<open>os.Create\<close> of the output file, the \<open>k\<close>-th
  \<open>file.Write\<close> on it (\<open>None\<close> when all bytes are written, \<open>Some (e, n)\<close> when the write
  stops with error \<open>e\<close> after \<open>n\<close> bytes) and \<open>os.RemoveAll\<close> of a staging path.
\<close>

record disk =
  create_out :: "string \<Rightarrow> error option"
  file_write :: "nat \<Rightarrow> bytes \<Rightarrow> (error \<times> nat) option"
  remove_all :: "string \<Rightarrow> error option"

type_synonym cipher = "segment \<Rightarrow> bytes \<Rightarrow> error + bytes"

text \<open>
  Modelled from the spec: \<open>decrypt\<close>, a method of the repository that is not in
  \<open>hlsdl.go\<close>.  It reads the staging bytes of the segment and decrypts them; a segment
  without a key reference passes through unchanged.  Fetching the key and AES-128 in CBC
  mode are the parameter \<open>xf\<close>.
\<close>

definition decrypt :: "cipher \<Rightarrow> files \<Rightarrow> segment \<Rightarrow> error + bytes" where
  "decrypt xf fs seg =
     (case fs (Path seg) of
        None \<Rightarrow> Inl (Err ''open: no such file or directory'')
      | Some staged \<Rightarrow>
          (case Key seg of
             None \<Rightarrow> Inr staged
           | Some k \<Rightarrow> xf seg staged))"

text \<open>A write through the open output file reaches the file the path names as long as
  the path still names it.\<close>

definition append_file :: "files \<Rightarrow> string \<Rightarrow> bytes \<Rightarrow> files" where
  "append_file fs p d = (case fs p of None \<Rightarrow> fs | Some old \<Rightarrow> fs(p \<mapsto> old @ d))"

text \<open>The loop of lines 270-284; \<open>k\<close> counts the writes.\<close>

fun join_loop ::
  "cipher \<Rightarrow> disk \<Rightarrow> string \<Rightarrow> nat \<Rightarrow> files \<Rightarrow> segment list \<Rightarrow> error option \<times> files" where
  "join_loop xf d out k fs [] = (None, fs)"
| "join_loop xf d out k fs (seg # rest) =
     (case decrypt xf fs seg of
        Inl e \<Rightarrow> (Some e, fs)
      | Inr bs \<Rightarrow>
          (case file_write d k bs of
             Some (e, n) \<Rightarrow> (Some e, append_file fs out (take n bs))
           | None \<Rightarrow>
               (case remove_all d (Path seg) of
                  Some e \<Rightarrow> (Some e, append_file fs out bs)
                | None \<Rightarrow>
                    join_loop xf d out (Suc k) ((append_file fs out bs)(Path seg := None)) rest)))"

text \<open>The comparison handed to \<open>sort.Slice\<close>, lines 266-268, on \<open>uint64\<close>.\<close>

definition lessSeqId :: "segment \<Rightarrow> segment \<Rightarrow> bool" where
  "lessSeqId a b \<longleftrightarrow> SeqId a < SeqId b"

text \<open>
  \<open>join\<close>, lines 255-287.  \<open>filepath.Join\<close> and \<open>sort.Slice\<close> belong to the Go library and
  are the parameters \<open>pjoin\<close> and \<open>srt\<close>; \<open>srt\<close> takes the comparison and the slice and
  returns the slice as \<open>sort.Slice\<close> leaves it.
\<close>

definition join ::
  "(string \<Rightarrow> string \<Rightarrow> string) \<Rightarrow>
     ((segment \<Rightarrow> segment \<Rightarrow> bool) \<Rightarrow> segment list \<Rightarrow> segment list) \<Rightarrow> cipher \<Rightarrow> disk \<Rightarrow>
     HlsDl \<Rightarrow> string \<Rightarrow> files \<Rightarrow> segment list \<Rightarrow> (error + string) \<times> files" where
  "join pjoin srt xf d h dr fs segs =
     (let filepath = pjoin dr (filename h) in
      case create_out d filepath of
        Some e \<Rightarrow> (Inl e, fs)
      | None \<Rightarrow>
          (case join_loop xf d filepath 0 (fs(filepath \<mapsto> [])) (srt lessSeqId segs) of
             (Some e, fs') \<Rightarrow> (Inl e, fs')
           | (None, fs') \<Rightarrow> (Inr filepath, fs')))"

text \<open>The plaintext that \<open>decrypt\<close> yields for a segment in a given directory.\<close>

definition plain_of :: "cipher \<Rightarrow> files \<Rightarrow> segment \<Rightarrow> bytes" where
  "plain_of xf fs seg = (case decrypt xf fs seg of Inl e \<Rightarrow> [] | Inr bs \<Rightarrow> bs)"

text \<open>
  The fetches of the worker pool in the order in which they complete: each is one call
  of \<open>downloadSegment\<close>, answered by the world \<open>ws seg\<close>.
\<close>

fun fetch_all :: "HlsDl \<Rightarrow> (segment \<Rightarrow> io) \<Rightarrow> files \<Rightarrow> segment list \<Rightarrow> error option \<times> files" where
  "fetch_all h ws fs [] = (None, fs)"
| "fetch_all h ws fs (seg # rest) =
     (case downloadSegment h (ws seg) fs seg of
        (Some e, fs') \<Rightarrow> (Some e, fs')
      | (None, fs') \<Rightarrow> fetch_all h ws fs' rest)"

text \<open>The body a successful fetch of the segment stores.\<close>

definition body_of :: "HlsDl \<Rightarrow> io \<Rightarrow> segment \<Rightarrow> bytes" where
  "body_of h w seg =
     (case newRequest w (URI seg) (headers h) ''GET'' of
        Inl e \<Rightarrow> []
      | Inr req \<Rightarrow> (case client_do w req of Inl e \<Rightarrow> [] | Inr res \<Rightarrow> Body res))"

section \<open>A fetch task\<close>

text \<open>
  The body of the loop of a fetch task, lines 179-205, for one segment it has received.
  Its visible effects are the calls of \<open>downloadSegment\<close> (each issues at most one GET),
  the sleeps and the result it sends; it then takes the next segment or returns.
  \<open>quit n\<close> tells whether the task finds \<open>quitChan\<close> closed at the check before attempt
  \<open>n\<close>, and \<open>ws n\<close> is the world that answers attempt \<open>n\<close>.
\<close>

datatype effect = is_Fetch: Fetch uint64 | is_Sleep: Sleep int | is_Send: Send DownloadResult

datatype control = Next | Return

text \<open>\<open>time.Second\<close>, a \<open>Duration\<close> in nanoseconds.\<close>

definition Second :: int where
  "Second = 1000000000"

text \<open>\<open>strings.Contains\<close>.\<close>

fun contains :: "string \<Rightarrow> string \<Rightarrow> bool" where
  "contains [] sub = (sub = [])"
| "contains (c # s) sub = (prefix sub (c # s) \<or> contains s sub)"

definition retryable :: "error \<Rightarrow> nat \<Rightarrow> bool" where
  "retryable err tried \<longleftrightarrow> contains (Error err) ''connection reset by peer'' \<and> tried < 3"

definition failure :: "segment \<Rightarrow> error \<Rightarrow> DownloadResult" where
  "failure seg err = \<lparr>ResErr = Some err, ResSeqId = SeqId seg\<rparr>"

definition success :: "segment \<Rightarrow> DownloadResult" where
  "success seg = \<lparr>ResErr = None, ResSeqId = SeqId seg\<rparr>"

text \<open>Lines 183-201, entered at the label \<open>DOWNLOAD\<close> with the current value of \<open>tried\<close>.\<close>

function download_loop ::
  "HlsDl \<Rightarrow> (nat \<Rightarrow> bool) \<Rightarrow> (nat \<Rightarrow> io) \<Rightarrow> segment \<Rightarrow> nat \<Rightarrow> files \<Rightarrow>
     control \<times> effect list \<times> files" where
  "download_loop h quit ws seg tried fs =
     (if quit (tried + 1) then (Return, [], fs)
      else
        (case downloadSegment h (ws (tried + 1)) fs seg of
           (Some err, fs') \<Rightarrow>
             if retryable err (tried + 1) then
               (case download_loop h quit ws seg (tried + 1) fs' of
                  (c, es, fs'') \<Rightarrow> (c, Fetch (SeqId seg) # Sleep Second # es, fs''))
             else (Return, [Fetch (SeqId seg), Send (failure seg err)], fs')
         | (None, fs') \<Rightarrow> (Next, [Fetch (SeqId seg)], fs')))"
  by pat_completeness auto
termination
  by (relation "measure (\<lambda>(h, quit, ws, seg, tried, fs). 3 - tried)")
    (auto simp: retryable_def)

declare download_loop.simps [simp del]

definition fetch_task ::
  "HlsDl \<Rightarrow> (nat \<Rightarrow> bool) \<Rightarrow> (nat \<Rightarrow> io) \<Rightarrow> files \<Rightarrow> segment \<Rightarrow> control \<times> effect list \<times> files" where
  "fetch_task h quit ws fs seg =
     (if \<not> Exists seg then
        (case download_loop h quit ws seg 0 fs of
           (Return, es, fs') \<Rightarrow> (Return, es, fs')
         | (Next, es, fs') \<Rightarrow> (Next, es @ [Send (success seg)], fs'))
      else (Next, [Send (success seg)], fs))"

text \<open>
  What the coordinator does with a result it has received, lines 241-249: the error it
  returns after closing \<open>quitChan\<close>, if any, and the number of increments of the bar.
\<close>

definition aggregate :: "HlsDl \<Rightarrow> DownloadResult \<Rightarrow> nat \<Rightarrow> error option \<times> nat" where
  "aggregate h result increments =
     (case ResErr result of
        Some err \<Rightarrow> (Some err, increments)
      | None \<Rightarrow> (None, if enableBar h then increments + 1 else increments))"


section \<open>The worker pool\<close>

text \<open>
  Lines 167-252 of \<open>downloadSegments\<close> as a transition system.  The goroutines are the
  dispatch routine (lines 209-223), \<open>workers\<close> fetch tasks (lines 176-206), the routine of
  \<open>wait\<close> (lines 72-75) and the coordinator (lines 237-251).  A state records where each
  of them stands, the channels, and a trace of what has happened.  A move is one step of
  one goroutine; the scheduler is any list of moves.  A \<open>select\<close> with several ready
  cases may take any of them, as in Go.

  A fetch task is at \<open>range segmentChan\<close> (\<open>Recv\<close>), at the label \<open>DOWNLOAD\<close> with
  segment \<open>i\<close> and the counter \<open>tried\<close> (\<open>Try\<close>), past the check of \<open>quitChan\<close> and
  about to call \<open>downloadSegment\<close> (\<open>Run\<close>), about to send a result (\<open>SendErr\<close>,
  \<open>SendOk\<close>), or has returned (\<open>Done\<close>).  Segments are named by their index in the slice.
\<close>

datatype phase = Assigning | Offering | Closed

datatype task = Recv | Try nat nat | Run nat nat | SendErr nat error | SendOk nat | Done

datatype event =
    Handed nat nat
  | Fetched nat
  | Slept int
  | Sent DownloadResult
  | Received DownloadResult
  | Cancelled
  | Returned "error option"

datatype move = Assign | Hand nat | Stop | Task nat | Wait | TakeFinished | TakeResult

record pool =
  store :: "segment list"
  nxt :: nat
  dispatcher :: phase
  tasks :: "task list"
  quitChan :: bool
  resultChan :: "DownloadResult list"
  waited :: bool
  finishedChan :: bool
  returned :: "error option option"
  increments :: nat
  staging :: files
  trace :: "event list"

text \<open>Lines 167-173.  \<open>wg.Add\<close> panics on a negative number of workers.\<close>

definition start :: "HlsDl \<Rightarrow> files \<Rightarrow> segment list \<Rightarrow> panic + pool" where
  "start h fs segs =
     (if workers h < 0 then Inl NegativeWaitGroupCounter
      else Inr \<lparr>store = segs, nxt = 0, dispatcher = Assigning,
                tasks = replicate (nat (workers h)) Recv, quitChan = False, resultChan = [],
                waited = False, finishedChan = False, returned = None, increments = 0,
                staging = fs, trace = []\<rparr>)"

text \<open>The dispatch routine: the head of its loop with lines 213-214, or the end of the
  loop and the deferred \<open>close(segmentChan)\<close>.\<close>

definition assign_step :: "(string \<Rightarrow> string \<Rightarrow> string) \<Rightarrow> HlsDl \<Rightarrow> pool \<Rightarrow> pool option" where
  "assign_step pjoin h s =
     (if dispatcher s = Assigning then
        (if nxt s < length (store s)
         then Some (s\<lparr>store := (store s)[nxt s := assign_path pjoin h (store s ! nxt s)],
                      dispatcher := Offering\<rparr>)
         else Some (s\<lparr>dispatcher := Closed\<rparr>))
      else None)"

text \<open>Line 181, where a task that has received segment \<open>i\<close> goes next.\<close>

definition receive :: "segment \<Rightarrow> nat \<Rightarrow> task" where
  "receive seg i = (if \<not> Exists seg then Try i 0 else SendOk i)"

text \<open>The first case of the \<open>select\<close> of lines 216-220: the send on the unbuffered
  \<open>segmentChan\<close> meets task \<open>w\<close> at \<open>range segmentChan\<close>.\<close>

definition hand_step :: "nat \<Rightarrow> pool \<Rightarrow> pool option" where
  "hand_step w s =
     (if dispatcher s = Offering \<and> nxt s < length (store s) \<and> w < length (tasks s)
         \<and> tasks s ! w = Recv
      then Some (s\<lparr>tasks := (tasks s)[w := receive (store s ! nxt s) (nxt s)],
                   nxt := nxt s + 1, dispatcher := Assigning,
                   trace := trace s @ [Handed (nxt s) w]\<rparr>)
      else None)"

text \<open>The second case: \<open>quitChan\<close> is closed, the routine returns and closes
  \<open>segmentChan\<close>.\<close>

definition stop_step :: "pool \<Rightarrow> pool option" where
  "stop_step s =
     (if dispatcher s = Offering \<and> quitChan s then Some (s\<lparr>dispatcher := Closed\<rparr>) else None)"

text \<open>One step of fetch task \<open>w\<close>.  \<open>ws i n\<close> is the world that answers attempt \<open>n\<close> for
  segment \<open>i\<close>; \<open>downloadResultChan\<close> has room for as many results as there are tasks.\<close>

definition task_step :: "HlsDl \<Rightarrow> (nat \<Rightarrow> nat \<Rightarrow> io) \<Rightarrow> nat \<Rightarrow> pool \<Rightarrow> pool option" where
  "task_step h ws w s =
     (if w < length (tasks s) then
        (case tasks s ! w of
           Recv \<Rightarrow>
             if dispatcher s = Closed then Some (s\<lparr>tasks := (tasks s)[w := Done]\<rparr>) else None
         | Try i tried \<Rightarrow>
             if quitChan s then Some (s\<lparr>tasks := (tasks s)[w := Done]\<rparr>)
             else Some (s\<lparr>tasks := (tasks s)[w := Run i (tried + 1)]\<rparr>)
         | Run i tried \<Rightarrow>
             (case downloadSegment h (ws i tried) (staging s) (store s ! i) of
                (Some err, fs') \<Rightarrow>
                  if retryable err tried
                  then Some (s\<lparr>staging := fs', tasks := (tasks s)[w := Try i tried],
                               trace := trace s @ [Fetched i, Slept Second]\<rparr>)
                  else Some (s\<lparr>staging := fs', tasks := (tasks s)[w := SendErr i err],
                               trace := trace s @ [Fetched i]\<rparr>)
              | (None, fs') \<Rightarrow>
                  Some (s\<lparr>staging := fs', tasks := (tasks s)[w := SendOk i],
                          trace := trace s @ [Fetched i]\<rparr>))
         | SendErr i err \<Rightarrow>
             if length (resultChan s) < length (tasks s)
             then Some (s\<lparr>resultChan := resultChan s @ [failure (store s ! i) err],
                          tasks := (tasks s)[w := Done],
                          trace := trace s @ [Sent (failure (store s ! i) err)]\<rparr>)
             else None
         | SendOk i \<Rightarrow>
             if length (resultChan s) < length (tasks s)
             then Some (s\<lparr>resultChan := resultChan s @ [success (store s ! i)],
                          tasks := (tasks s)[w := Recv],
                          trace := trace s @ [Sent (success (store s ! i))]\<rparr>)
             else None
         | Done \<Rightarrow> None)
      else None)"

text \<open>The routine of \<open>wait\<close>: all tasks have called \<open>wg.Done\<close>.\<close>

definition wait_step :: "pool \<Rightarrow> pool option" where
  "wait_step s =
     (if \<not> waited s \<and> (\<forall>t \<in> set (tasks s). t = Done)
      then Some (s\<lparr>waited := True, finishedChan := True\<rparr>)
      else None)"

text \<open>The coordinator, lines 237-251: the two cases of its \<open>select\<close>.\<close>

definition take_finished :: "pool \<Rightarrow> pool option" where
  "take_finished s =
     (if returned s = None \<and> finishedChan s
      then Some (s\<lparr>finishedChan := False, returned := Some None,
                   trace := trace s @ [Returned None]\<rparr>)
      else None)"

definition take_result :: "HlsDl \<Rightarrow> pool \<Rightarrow> pool option" where
  "take_result h s =
     (if returned s = None then
        (case resultChan s of
           [] \<Rightarrow> None
         | result # rest \<Rightarrow>
             (case aggregate h result (increments s) of
                (Some err, n) \<Rightarrow>
                  Some (s\<lparr>resultChan := rest, quitChan := True, returned := Some (Some err),
                          trace := trace s @ [Received result, Cancelled, Returned (Some err)]\<rparr>)
              | (None, n) \<Rightarrow>
                  Some (s\<lparr>resultChan := rest, increments := n,
                          trace := trace s @ [Received result]\<rparr>)))
      else None)"

fun step ::
  "(string \<Rightarrow> string \<Rightarrow> string) \<Rightarrow> HlsDl \<Rightarrow> (nat \<Rightarrow> nat \<Rightarrow> io) \<Rightarrow> move \<Rightarrow> pool \<Rightarrow> pool option" where
  "step pjoin h ws Assign s = assign_step pjoin h s"
| "step pjoin h ws (Hand w) s = hand_step w s"
| "step pjoin h ws Stop s = stop_step s"
| "step pjoin h ws (Task w) s = task_step h ws w s"
| "step pjoin h ws Wait s = wait_step s"
| "step pjoin h ws TakeFinished s = take_finished s"
| "step pjoin h ws TakeResult s = take_result h s"

fun run ::
  "(string \<Rightarrow> string \<Rightarrow> string) \<Rightarrow> HlsDl \<Rightarrow> (nat \<Rightarrow> nat \<Rightarrow> io) \<Rightarrow> move list \<Rightarrow> pool \<Rightarrow>
     pool option" where
  "run pjoin h ws [] s = Some s"
| "run pjoin h ws (m # ms) s =
     (case step pjoin h ws m s of None \<Rightarrow> None | Some s' \<Rightarrow> run pjoin h ws ms s')"

text \<open>Reading a trace: what follows the cancellation, the segments handed to a task, the
  segments for which \<open>downloadSegment\<close> was called, the results the coordinator received.\<close>

definition after_cancel :: "event list \<Rightarrow> event list" where
  "after_cancel tr = tl (dropWhile (\<lambda>e. e \<noteq> Cancelled) tr)"

fun handed :: "event list \<Rightarrow> nat list" where
  "handed [] = []"
| "handed (Handed i w # tr) = i # handed tr"
| "handed (e # tr) = handed tr"

fun fetched :: "event list \<Rightarrow> nat list" where
  "fetched [] = []"
| "fetched (Fetched i # tr) = i # fetched tr"
| "fetched (e # tr) = fetched tr"

fun received :: "event list \<Rightarrow> DownloadResult list" where
  "received [] = []"
| "received (Received r # tr) = r # received tr"
| "received (e # tr) = received tr"

section \<open>Notions used in the statements and proofs\<close>

text \<open>The relation between a segment before and after a step of the scan: the scan
  touches no field but \<open>Exists\<close>, and that only upwards.\<close>

definition grows :: "segment \<Rightarrow> segment \<Rightarrow> bool" where
  "grows s s' \<longleftrightarrow> Path s' = Path s \<and> URI s' = URI s \<and> SeqId s' = SeqId s \<and> (Exists s \<longrightarrow> Exists s')"

text \<open>
  What the Go library promises of \<open>sort.Slice\<close>.  The comparison must be a transitive
  ordering: irreflexive, transitive, and with \<open>lt a c\<close> false whenever \<open>lt a b\<close> and
  \<open>lt b c\<close> are false.  The slice is then permuted so that no element is less than an
  element before it; the order among elements of which neither is less than the other
  is left open.  The slice is permuted for every comparison.
\<close>

definition transitive_ordering :: "('a \<Rightarrow> 'a \<Rightarrow> bool) \<Rightarrow> bool" where
  "transitive_ordering lt \<longleftrightarrow>
     (\<forall>a. \<not> lt a a)
   \<and> (\<forall>a b c. lt a b \<and> lt b c \<longrightarrow> lt a c)
   \<and> (\<forall>a b c. \<not> lt a b \<and> \<not> lt b c \<longrightarrow> \<not> lt a c)"

definition sort_Slice_contract :: "(('a \<Rightarrow> 'a \<Rightarrow> bool) \<Rightarrow> 'a list \<Rightarrow> 'a list) \<Rightarrow> bool" where
  "sort_Slice_contract srt \<longleftrightarrow>
     (\<forall>lt xs. mset (srt lt xs) = mset xs
        \<and> (transitive_ordering lt \<longrightarrow> sorted_wrt (\<lambda>a b. \<not> lt b a) (srt lt xs)))"

text \<open>
  One pass of the loop of \<open>join\<close> for a segment, as its \<open>k\<close>-th write: it passes when
  decrypting, writing and removing all succeed; it stops with error \<open>e\<close>, having written
  \<open>part\<close>, when one of the three fails.
\<close>

definition passes :: "cipher \<Rightarrow> disk \<Rightarrow> files \<Rightarrow> segment \<Rightarrow> nat \<Rightarrow> bool" where
  "passes xf d fs seg k =
     (case decrypt xf fs seg of
        Inl e \<Rightarrow> False
      | Inr bs \<Rightarrow> file_write d k bs = None \<and> remove_all d (Path seg) = None)"

definition stops_at :: "cipher \<Rightarrow> disk \<Rightarrow> files \<Rightarrow> segment \<Rightarrow> nat \<Rightarrow> error \<Rightarrow> bytes \<Rightarrow> bool" where
  "stops_at xf d fs seg k e part =
     (case decrypt xf fs seg of
        Inl e' \<Rightarrow> e' = e \<and> part = []
      | Inr bs \<Rightarrow>
          (case file_write d k bs of
             Some (e', n) \<Rightarrow> e' = e \<and> part = take n bs
           | None \<Rightarrow> remove_all d (Path seg) = Some e \<and> part = bs))"

text \<open>The segments handed to a task after the cancellation.\<close>

definition late_handed :: "pool \<Rightarrow> nat list" where
  "late_handed s = handed (after_cancel (trace s))"

text \<open>
  A task is past the check of \<open>quitChan\<close>, lines 186-190, when it is about to call
  \<open>downloadSegment\<close>; \<open>running\<close> lists the segments of the tasks that are.
\<close>

definition past_check :: "task \<Rightarrow> bool" where
  "past_check t = (case t of Run i n \<Rightarrow> True | _ \<Rightarrow> False)"

fun running :: "task list \<Rightarrow> nat list" where
  "running [] = []"
| "running (Run i t # ts) = i # running ts"
| "running (t # ts) = running ts"

text \<open>
  The invariant of the pool: \<open>quitChan\<close> is closed exactly when the coordinator has
  returned an error; the results it has received carry no error, except the last one
  when it has returned an error; a segment handed over after the cancellation has not
  been fetched and no task is about to fetch it; a segment not yet handed over has not
  been fetched and no task holds it.
\<close>

definition pool_inv :: "pool \<Rightarrow> bool" where
  "pool_inv s \<longleftrightarrow>
     (quitChan s \<longleftrightarrow> Cancelled \<in> set (trace s))
   \<and> (quitChan s \<longleftrightarrow> (\<exists>e. returned s = Some (Some e)))
   \<and> (\<forall>e. returned s = Some (Some e) \<longrightarrow>
         (\<exists>oks r. received (trace s) = oks @ [r] \<and> ResErr r = Some e
            \<and> (\<forall>r' \<in> set oks. ResErr r' = None)))
   \<and> ((\<forall>e. returned s \<noteq> Some (Some e)) \<longrightarrow> (\<forall>r \<in> set (received (trace s)). ResErr r = None))
   \<and> (\<forall>i \<in> set (late_handed s). i \<notin> set (fetched (trace s)) \<and> (\<forall>t. Run i t \<notin> set (tasks s)))
   \<and> (\<forall>i \<ge> nxt s. i \<notin> set (fetched (trace s))
         \<and> (\<forall>t. Run i t \<notin> set (tasks s) \<and> Try i t \<notin> set (tasks s)))"

text \<open>The events a fetch task leaves in the trace of the pool for its effects on segment
  \<open>i\<close>, and the results among its effects.\<close>

fun event_of :: "nat \<Rightarrow> effect \<Rightarrow> event" where
  "event_of i (Fetch sid) = Fetched i"
| "event_of i (Sleep d) = Slept d"
| "event_of i (Send r) = Sent r"

fun sends :: "effect list \<Rightarrow> DownloadResult list" where
  "sends [] = []"
| "sends (Send r # es) = r # sends es"
| "sends (e # es) = sends es"

section \<open>Example inputs\<close>

definition ex_h :: "int \<Rightarrow> bool \<Rightarrow> HlsDl" where
  "ex_h n thorough =
     \<lparr>headers = [], dir = ''download'', hlsURL = ''http://host/list.m3u8'', workers = n,
      enableBar = True, filename = ''video.ts'', continueDownloading = True,
      checkAllSegments = thorough\<rparr>"

definition ex_join :: "string \<Rightarrow> string \<Rightarrow> string" where
  "ex_join d name = d @ ''/'' @ name"

definition ex_seg :: "nat \<Rightarrow> segment" where
  "ex_seg n =
     \<lparr>SeqId = of_nat n, URI = ''http://host/'' @ decimal n, Key = None,
      Path = ex_join ''download'' (segName (of_nat n)), Exists = False\<rparr>"

definition ex_request :: "string \<Rightarrow> (string \<times> string) list \<Rightarrow> string \<Rightarrow> error + request" where
  "ex_request url hs m = Inr \<lparr>ReqMethod = m, ReqURL = url, ReqHeader = hs\<rparr>"

text \<open>A server that answers every request with the given status and a three-byte body,
  and a disk where every staging file has \<open>sz\<close> bytes.\<close>

definition ex_io :: "int \<Rightarrow> string \<Rightarrow> int64 \<Rightarrow> io" where
  "ex_io code status sz =
     \<lparr>newRequest = ex_request,
      client_do = (\<lambda>req. Inr \<lparr>StatusCode = code, Status = status, Body = [1, 2, 3],
                               ContentLength = 3\<rparr>),
      os_stat = (\<lambda>p. Inr sz),
      os_create = (\<lambda>p. None),
      io_copy = (\<lambda>p b. None)\<rparr>"

definition ex_segs :: "nat \<Rightarrow> segment list" where
  "ex_segs n = map ex_seg [0..<n]"

definition ex_files :: "nat \<Rightarrow> string list" where
  "ex_files n = map (\<lambda>i. Path (ex_seg i)) [0..<n]"

definition ex_disk :: disk where
  "ex_disk = \<lparr>create_out = (\<lambda>p. None), file_write = (\<lambda>k bs. None), remove_all = (\<lambda>p. None)\<rparr>"

definition ex_cipher :: cipher where
  "ex_cipher seg bs = Inr (map (\<lambda>b. b + 1) bs)"

text \<open>Three staged segments, the second one encrypted, listed out of order; a disk whose
  second write stops after one byte; a server whose body names the segment.\<close>

definition ex_key :: key where
  "ex_key = \<lparr>Method = ''AES-128'', KeyURI = ''http://host/key'', IV = []\<rparr>"

definition ex_mixed :: "segment list" where
  "ex_mixed = [ex_seg 2, ex_seg 0, (ex_seg 1)\<lparr>Key := Some ex_key\<rparr>]"

definition ex_staged :: files where
  "ex_staged = map_of [(Path (ex_seg 0), [10, 11]), (Path (ex_seg 1), [20, 22]),
                       (Path (ex_seg 2), [30, 31, 32])]"

definition ex_disk_full :: disk where
  "ex_disk_full =
     ex_disk\<lparr>file_write := (\<lambda>k bs. if k = 1 then Some (Err ''no space left on device'', 1)
                                    else None)\<rparr>"

definition ex_ws :: "segment \<Rightarrow> io" where
  "ex_ws seg =
     (ex_io 200 ''200 OK'' 0)
       \<lparr>client_do := (\<lambda>req. Inr \<lparr>StatusCode = 200, Status = ''200 OK'',
                                   Body = [ucast (SeqId seg), 7], ContentLength = 2\<rparr>)\<rparr>"

text \<open>A world whose requests fail with the given error.\<close>

definition ex_down :: "string \<Rightarrow> io" where
  "ex_down msg = (ex_io 200 ''200 OK'' 0)\<lparr>client_do := (\<lambda>req. Inl (Err msg))\<rparr>"

text \<open>Three segments, two tasks; every request for the first segment is answered 404.\<close>

definition ex_pool_ws :: "nat \<Rightarrow> nat \<Rightarrow> io" where
  "ex_pool_ws i n = (if i = 0 then ex_io 404 ''404 Not Found'' 0 else ex_io 200 ''200 OK'' 0)"

definition ex_pool :: pool where
  "ex_pool =
     \<lparr>store = ex_segs 3, nxt = 0, dispatcher = Assigning, tasks = [Recv, Recv],
      quitChan = False, resultChan = [], waited = False, finishedChan = False,
      returned = None, increments = 0, staging = Map.empty, trace = []\<rparr>"

definition ex_late_dispatch :: "move list" where
  "ex_late_dispatch =
     [Assign, Hand 0, Assign, Hand 1, Task 0, Task 0, Task 0, Task 1, Task 1, Task 1,
      Assign, TakeResult, Hand 1]"

definition ex_late_fetch :: "move list" where
  "ex_late_fetch =
     [Assign, Hand 0, Assign, Hand 1, Task 0, Task 0, Task 0, Task 1, TakeResult, Task 1]"

text \<open>An implementation of \<open>sort.Slice\<close>: insertion sort, from the right, as Go sorts a
  short slice.\<close>

fun ex_insert :: "('a \<Rightarrow> 'a \<Rightarrow> bool) \<Rightarrow> 'a \<Rightarrow> 'a list \<Rightarrow> 'a list" where
  "ex_insert lt x [] = [x]"
| "ex_insert lt x (y # ys) = (if lt x y then x # y # ys else y # ex_insert lt x ys)"

definition ex_sort :: "('a \<Rightarrow> 'a \<Rightarrow> bool) \<Rightarrow> 'a list \<Rightarrow> 'a list" where
  "ex_sort lt xs = foldr (ex_insert lt) xs []"

text \<open>A world where every request for the first segment is answered 404 and every other
  request meets a connection reset; a schedule that ends with the cancellation, the
  second task being past its check.\<close>

definition ex_retry_ws :: "nat \<Rightarrow> nat \<Rightarrow> io" where
  "ex_retry_ws i n =
     (if i = 0 then ex_io 404 ''404 Not Found'' 0 else ex_down ''read: connection reset by peer'')"

definition ex_until_cancel :: "move list" where
  "ex_until_cancel =
     [Assign, Hand 0, Assign, Hand 1, Task 0, Task 0, Task 0, Task 1, TakeResult]"

text \<open>Three tasks and five segments: the second and third task are done with their
  segments and wait when the coordinator cancels; the dispatch routine then hands over
  the last two segments.\<close>

definition ex_late_twice :: "move list" where
  "ex_late_twice =
     [Assign, Hand 0, Assign, Hand 1, Assign, Hand 2, Task 0, Task 0, Task 0,
      Task 1, Task 1, Task 1, Task 2, Task 2, Task 2, Assign, TakeResult,
      Hand 1, Assign, Hand 2, Task 1, Task 2]"

text \<open>A single segment that the resume scan has marked.\<close>

definition ex_skipped :: "segment list" where
  "ex_skipped = [(ex_seg 0)\<lparr>Exists := True\<rparr>]"

text \<open>A resumed download: the first segment is staged and marked, the other two are
  fetched.\<close>

definition ex_resumed :: "segment list" where
  "ex_resumed = [ex_seg 2, (ex_seg 0)\<lparr>Exists := True\<rparr>, (ex_seg 1)\<lparr>Key := Some ex_key\<rparr>]"

definition ex_kept :: files where
  "ex_kept = map_of [(Path (ex_seg 0), [10, 11])]"

section \<open>Theorems\<close>

lemma decimal_value_append:
  "decimal_value (s @ [c]) = 10 * decimal_value s + digit_value c"
  by (simp add: decimal_value_def)

lemma digit_value_digit_char: "d < 10 \<Longrightarrow> digit_value (digit_char d) = d"
  by (simp add: digit_value_def digit_char_def)

lemma decimal_value_decimal: "decimal_value (decimal n) = n"
proof (induction n rule: decimal.induct)
  case (1 n)
  show ?case
  proof (cases "n < 10")
    case True
    then show ?thesis
      by (subst decimal.simps) (simp add: decimal_value_def digit_value_digit_char)
  next
    case False
    then have "decimal_value (decimal n) = 10 * decimal_value (decimal (n div 10)) + n mod 10"
      by (subst decimal.simps) (simp add: decimal_value_append digit_value_digit_char)
    with False 1 show ?thesis by simp
  qed
qed

lemma decimal_value_zeros: "decimal_value (replicate k (CHR ''0'') @ s) = decimal_value s"
proof -
  have "foldl (\<lambda>a c. 10 * a + digit_value c) 0 (replicate k (CHR ''0'')) = 0"
    by (induction k) (simp_all add: digit_value_def)
  then show ?thesis by (simp add: decimal_value_def)
qed

lemma decimal_value_pad_zero: "decimal_value (pad_zero w (decimal n)) = n"
  by (simp add: pad_zero_def decimal_value_zeros decimal_value_decimal)

subsection \<open>C9: the staging path\<close>

text \<open>
  C9.  The path the dispatch routine assigns to a segment is the working directory joined
  with \<open>seg\<close>, the decimal sequence id zero-padded to six digits, and \<open>.ts\<close>.  It depends
  on the sequence id and the working directory only: the previous path and the other
  fields of the segment do not enter, and assigning it a second time changes nothing.
  The numeric field is at least six characters long and reads back as the sequence id.
\<close>

theorem staging_path_deterministic:
  "Path (assign_path pj h s)
     = pj (dir h) (''seg'' @ replicate (6 - length (decimal (unat (SeqId s)))) (CHR ''0'')
                    @ decimal (unat (SeqId s)) @ ''.ts'')
   \<and> Path (assign_path pj h (s\<lparr>Path := p, Exists := b, URI := u, Key := k\<rparr>))
       = Path (assign_path pj h s)
   \<and> assign_path pj h (assign_path pj h s) = assign_path pj h s
   \<and> length (pad_zero 6 (decimal (unat (SeqId s)))) = max 6 (length (decimal (unat (SeqId s))))
   \<and> decimal_value (pad_zero 6 (decimal (unat (SeqId s)))) = unat (SeqId s)"
  by (simp add: assign_path_def stagingPath_def segName_def pad_zero_def
      decimal_value_zeros decimal_value_decimal max_def)

subsection \<open>C6: the outcome of downloadSegment\<close>

text \<open>
  C6.  \<open>downloadSegment\<close> returns an error exactly when the request cannot be built,
  the GET fails, the status is not 200, the staging file cannot be created or the copy
  of the body fails.  It returns the error of the failing step; for a status other than
  200 that is the HTTP status text.  When no step fails it returns nil and the staging
  file holds the body; when the copy fails the file holds the part that was copied.
  Nothing but the segment's staging file is ever changed.
\<close>

theorem downloadSegment_outcome:
  "(fst (downloadSegment h w fs seg) \<noteq> None \<longleftrightarrow>
      (\<exists>e. newRequest w (URI seg) (headers h) ''GET'' = Inl e)
    \<or> (\<exists>req. newRequest w (URI seg) (headers h) ''GET'' = Inr req \<and>
         ((\<exists>e. client_do w req = Inl e)
        \<or> (\<exists>res. client_do w req = Inr res \<and>
              (StatusCode res \<noteq> 200
             \<or> os_create w (Path seg) \<noteq> None
             \<or> io_copy w (Path seg) (Body res) \<noteq> None)))))
   \<and> (\<forall>e. newRequest w (URI seg) (headers h) ''GET'' = Inl e \<longrightarrow>
         downloadSegment h w fs seg = (Some e, fs))
   \<and> (\<forall>req. newRequest w (URI seg) (headers h) ''GET'' = Inr req \<longrightarrow>
         (\<forall>e. client_do w req = Inl e \<longrightarrow> downloadSegment h w fs seg = (Some e, fs))
       \<and> (\<forall>res. client_do w req = Inr res \<longrightarrow>
             (StatusCode res \<noteq> 200 \<longrightarrow>
                downloadSegment h w fs seg = (Some (Err (Status res)), fs))
           \<and> (StatusCode res = 200 \<longrightarrow>
                (\<forall>e. os_create w (Path seg) = Some e \<longrightarrow>
                   downloadSegment h w fs seg = (Some e, fs))
              \<and> (os_create w (Path seg) = None \<longrightarrow>
                   (\<forall>e n. io_copy w (Path seg) (Body res) = Some (e, n) \<longrightarrow>
                      downloadSegment h w fs seg
                        = (Some e, fs(Path seg \<mapsto> take n (Body res))))
                 \<and> (io_copy w (Path seg) (Body res) = None \<longrightarrow>
                      downloadSegment h w fs seg = (None, fs(Path seg \<mapsto> Body res)))))))
   \<and> (\<forall>p. p \<noteq> Path seg \<longrightarrow> snd (downloadSegment h w fs seg) p = fs p)"
  by (auto simp: downloadSegment_def split: sum.splits option.splits)

text \<open>The example of C6: a 200 answer stores the body, a 404 answer is an error carrying
  the status text and leaves the directory alone.\<close>

theorem downloadSegment_outcome_witness:
  "downloadSegment (ex_h 2 False) (ex_io 200 ''200 OK'' 0) Map.empty (ex_seg 7)
     = (None, [Path (ex_seg 7) \<mapsto> [1, 2, 3]])
   \<and> downloadSegment (ex_h 2 False) (ex_io 404 ''404 Not Found'' 0) Map.empty (ex_seg 7)
     = (Some (Err ''404 Not Found''), Map.empty)"
  using downloadSegment_outcome [where w = "ex_io 200 ''200 OK'' 0" and seg = "ex_seg 7"
      and h = "ex_h 2 False" and fs = Map.empty]
    downloadSegment_outcome [where w = "ex_io 404 ''404 Not Found'' 0" and seg = "ex_seg 7"
      and h = "ex_h 2 False" and fs = Map.empty]
  by (simp add: ex_h_def ex_io_def ex_request_def)

subsection \<open>C4: thorough mode\<close>

lemma check_against_fields [simp]:
  "Path (check_against h w files seg) = Path seg"
  "URI (check_against h w files seg) = URI seg"
  "SeqId (check_against h w files seg) = SeqId seg"
  by (induction files arbitrary: seg) auto

lemma size_match_Exists [simp]: "size_match h w (seg\<lparr>Exists := b\<rparr>) = size_match h w seg"
  by (simp add: size_match_def getFileSize_def getSegmentSize_def)

lemma check_against_Exists:
  "Exists (check_against h w files seg) \<longleftrightarrow>
     Exists seg \<or> (Path seg \<in> set files \<and> size_match h w seg)"
  by (induction files arbitrary: seg) auto

lemma size_match_iff:
  "size_match h w seg \<longleftrightarrow>
     (\<exists>l req res. os_stat w (Path seg) = Inr l \<and>
        newRequest w (URI seg) (headers h) ''HEAD'' = Inr req \<and>
        client_do w req = Inr res \<and> ContentLength res = l \<and> l \<noteq> 0)"
  by (auto simp: size_match_def getFileSize_def getSegmentSize_def split: sum.splits)

text \<open>
  C4.  In thorough mode a segment that was not marked before the scan is marked
  \<open>Exists\<close> by it if and only if its path is among the listed files, \<open>os.Stat\<close> of the
  path and the HEAD request for its URI both succeed, and the file size equals the
  reported content length and is not zero.  The scan changes no other field.
\<close>

theorem thorough_scan_marks:
  assumes "checkAllSegments h"
    and "resume_scan same h w files segs = Inr (segs', probed)"
    and "k < length segs"
    and "\<not> Exists (segs ! k)"
  shows "length segs' = length segs
    \<and> Path (segs' ! k) = Path (segs ! k) \<and> URI (segs' ! k) = URI (segs ! k)
    \<and> SeqId (segs' ! k) = SeqId (segs ! k)
    \<and> (Exists (segs' ! k) \<longleftrightarrow>
          Path (segs ! k) \<in> set files
        \<and> (\<exists>l req res. os_stat w (Path (segs ! k)) = Inr l
             \<and> newRequest w (URI (segs ! k)) (headers h) ''HEAD'' = Inr req
             \<and> client_do w req = Inr res
             \<and> ContentLength res = l \<and> l \<noteq> 0))"
proof -
  from assms(1,2) have segs': "segs' = map (check_against h w files) segs"
    by (simp add: resume_scan_def scan_thorough_def)
  with assms(3,4) show ?thesis
    by (simp add: check_against_Exists size_match_iff)
qed

lemmas ex_simps = ex_h_def ex_seg_def ex_io_def ex_join_def ex_request_def segName_def
  pad_zero_def decimal.simps digit_char_def

theorem thorough_scan_marks_witness:
  "checkAllSegments (ex_h 2 True)
   \<and> resume_scan same_sizes (ex_h 2 True) (ex_io 200 ''200 OK'' 3)
        [Path (ex_seg 0)] [ex_seg 0, ex_seg 1]
      = Inr ([(ex_seg 0)\<lparr>Exists := True\<rparr>, ex_seg 1], [Path (ex_seg 0)])
   \<and> \<not> Exists (ex_seg 0) \<and> \<not> Exists (ex_seg 1)
   \<and> Exists ([(ex_seg 0)\<lparr>Exists := True\<rparr>, ex_seg 1] ! 0)
   \<and> Path (ex_seg 0) \<in> set [Path (ex_seg 0)]
   \<and> \<not> Exists ([(ex_seg 0)\<lparr>Exists := True\<rparr>, ex_seg 1] ! 1)
   \<and> Path (ex_seg 1) \<notin> set [Path (ex_seg 0)]"
proof -
  have c: "checkAllSegments (ex_h 2 True)" by (simp add: ex_h_def)
  have r: "resume_scan same_sizes (ex_h 2 True) (ex_io 200 ''200 OK'' 3)
        [Path (ex_seg 0)] [ex_seg 0, ex_seg 1]
      = Inr ([(ex_seg 0)\<lparr>Exists := True\<rparr>, ex_seg 1], [Path (ex_seg 0)])"
    by (simp add: resume_scan_def scan_thorough_def ex_simps size_match_def getFileSize_def
        getSegmentSize_def)
  have e: "\<not> Exists (ex_seg 0)" "\<not> Exists (ex_seg 1)" by (simp_all add: ex_seg_def)
  have p: "Path (ex_seg 1) \<notin> set [Path (ex_seg 0)]"
    by (simp add: ex_simps)
  from thorough_scan_marks [OF c r, where k = 0] thorough_scan_marks [OF c r, where k = 1]
    c r e p
  show ?thesis by simp
qed

subsection \<open>The fast scan: monotonicity and the index panic\<close>

lemma grows_refl [simp]: "grows s s"
  by (simp add: grows_def)

lemma grows_trans: "grows a b \<Longrightarrow> grows b c \<Longrightarrow> grows a c"
  by (simp add: grows_def)

lemma grows_trust [simp]: "grows s (trust file s)"
  by (simp add: grows_def trust_def)

lemma grows_verify [simp]: "grows s (verify same h w file s)"
  by (simp add: grows_def verify_def)

lemma list_all2_grows_map: "(\<And>s. grows s (f s)) \<Longrightarrow> list_all2 grows segs (map f segs)"
  by (simp add: list_all2_conv_all_nth)

lemma list_all2_grows_trans:
  "list_all2 grows xs ys \<Longrightarrow> list_all2 grows ys zs \<Longrightarrow> list_all2 grows xs zs"
  by (erule (1) list_all2_trans [rotated]) (rule grows_trans)

lemma trust_loop_grows:
  "trust_loop files i segs = Inr segs' \<Longrightarrow> list_all2 grows segs segs'"
proof (induction files i segs rule: trust_loop.induct)
  case (1 files i segs)
  show ?case
  proof (cases "0 \<le> i")
    case False
    with "1.prems" show ?thesis
      by (simp add: trust_loop.simps [of files i segs] list_all2_refl)
  next
    case True
    show ?thesis
    proof (cases "segs = []")
      case True
      from "1.prems" have "trust_loop files (i - 1) segs = Inr segs'"
        by (subst (asm) trust_loop.simps) (simp add: True \<open>0 \<le> i\<close>)
      then show ?thesis by (rule "1.IH"(1) [OF \<open>0 \<le> i\<close> True])
    next
      case False
      with "1.prems" \<open>0 \<le> i\<close> obtain fl where
        f: "index files i = Inr fl" and
        r: "trust_loop files (i - 1) (map (trust fl) segs) = Inr segs'"
        by (auto simp: trust_loop.simps [of files i segs] split: sum.splits)
      from "1.IH"(2) [OF \<open>0 \<le> i\<close> False f r]
      have "list_all2 grows (map (trust fl) segs) segs'" .
      moreover have "list_all2 grows segs (map (trust fl) segs)"
        by (rule list_all2_grows_map) simp
      ultimately show ?thesis by (rule list_all2_grows_trans [rotated])
    qed
  qed
qed

lemma verify_loop_grows:
  "verify_loop same h w files lo i (segs, probed) = Inr (segs', probed') \<Longrightarrow>
     list_all2 grows segs segs'"
proof (induction same h w files lo i "(segs, probed)" arbitrary: segs probed
    rule: verify_loop.induct)
  case (1 same h w files lo i segs probed)
  show ?case
  proof (cases "lo \<le> i")
    case False
    with "1.prems" show ?thesis
      by (simp add: verify_loop.simps [of same h w files lo i] list_all2_refl)
  next
    case True
    show ?thesis
    proof (cases "segs = []")
      case True
      from "1.prems"
      have "verify_loop same h w files lo (i - 1) (segs, probed) = Inr (segs', probed')"
        by (subst (asm) verify_loop.simps) (simp add: True \<open>lo \<le> i\<close>)
      then show ?thesis by (rule "1.hyps"(1) [OF \<open>lo \<le> i\<close> True])
    next
      case False
      with "1.prems" \<open>lo \<le> i\<close> obtain fl where
        f: "index files i = Inr fl" and
        r: "verify_loop same h w files lo (i - 1)
              (map (verify same h w fl) segs,
               probed @ map Path (filter (\<lambda>seg. Path seg = fl) segs)) = Inr (segs', probed')"
        by (auto simp: verify_loop.simps [of same h w files lo i] split: sum.splits)
      from "1.hyps"(2) [OF \<open>lo \<le> i\<close> False f r]
      have "list_all2 grows (map (verify same h w fl) segs) segs'" .
      moreover have "list_all2 grows segs (map (verify same h w fl) segs)"
        by (rule list_all2_grows_map) simp
      ultimately show ?thesis by (rule list_all2_grows_trans [rotated])
    qed
  qed
qed

lemma trust_loop_marks:
  assumes "trust_loop files i segs = Inr segs'" and "0 \<le> i" and "k < length segs"
    and "Path (segs ! k) = files ! nat i"
  shows "Exists (segs' ! k)"
proof -
  from assms(3) have ne: "segs \<noteq> []" by auto
  with assms(1,2) obtain fl where
    f: "index files i = Inr fl" and
    r: "trust_loop files (i - 1) (map (trust fl) segs) = Inr segs'"
    by (auto simp: trust_loop.simps [of files i segs] split: sum.splits)
  from f have "fl = files ! nat i" by (auto simp: index_def split: if_splits)
  with assms(3,4) have "Exists (map (trust fl) segs ! k)" by (simp add: trust_def)
  moreover from trust_loop_grows [OF r] assms(3)
  have "grows (map (trust fl) segs ! k) (segs' ! k)"
    by (simp add: list_all2_conv_all_nth)
  ultimately show ?thesis by (simp add: grows_def)
qed

lemma verify_loop_panics:
  "segs \<noteq> [] \<Longrightarrow> lo \<le> - 1 \<Longrightarrow> - 1 \<le> i \<Longrightarrow> i < int (length files) \<Longrightarrow>
   verify_loop same h w files lo i (segs, probed) = Inl (IndexOutOfRange (- 1) (length files))"
proof (induction same h w files lo i "(segs, probed)" arbitrary: segs probed
    rule: verify_loop.induct)
  case (1 same h w files lo i segs probed)
  show ?case
  proof (cases "i = - 1")
    case True
    with "1.prems" show ?thesis
      by (subst verify_loop.simps) (simp add: index_def)
  next
    case False
    with "1.prems" have i: "0 \<le> i" "lo \<le> i" by auto
    with "1.prems" have f: "index files i = Inr (files ! nat i)" by (simp add: index_def)
    have "verify_loop same h w files lo (i - 1)
              (map (verify same h w (files ! nat i)) segs,
               probed @ map Path (filter (\<lambda>seg. Path seg = files ! nat i) segs))
            = Inl (IndexOutOfRange (- 1) (length files))"
      using "1.prems" i False by (intro "1.hyps"(2) [OF i(2) _ f]) auto
    with "1.prems" i f show ?thesis
      by (simp add: verify_loop.simps [of same h w files lo i])
  qed
qed

text \<open>
  C3.  In fast mode the verifying loop runs its index from \<open>len(files) - 1\<close> down to
  \<open>len(files) - 1 - workers\<close> without a lower bound of 0.  With no more files than
  workers (an empty staging directory included) and at least one segment, the index
  reaches \<open>-1\<close> and \<open>files[i]\<close> panics: the scan marks nothing and verifies nothing.
\<close>

theorem fast_scan_few_files_panics:
  assumes "\<not> checkAllSegments h" and "0 \<le> workers h" and "int (length files) \<le> workers h"
    and "segs \<noteq> []"
  shows "resume_scan same h w files segs = Inl (IndexOutOfRange (- 1) (length files))"
proof -
  from assms(3) have "trust_loop files (int (length files) - 1 - workers h) segs = Inr segs"
    by (simp add: trust_loop.simps)
  moreover from assms(2,3,4)
  have "verify_loop same h w files (int (length files) - 1 - workers h)
            (int (length files) - 1) (segs, []) = Inl (IndexOutOfRange (- 1) (length files))"
    by (intro verify_loop_panics) auto
  ultimately show ?thesis using assms(1) by (simp add: resume_scan_def scan_fast_def)
qed

theorem fast_scan_few_files_panics_witness:
  "\<not> checkAllSegments (ex_h 2 False) \<and> 0 \<le> workers (ex_h 2 False)
   \<and> int (length (ex_files 1)) \<le> workers (ex_h 2 False) \<and> ex_segs 2 \<noteq> []
   \<and> resume_scan same_results (ex_h 2 False) (ex_io 200 ''200 OK'' 3) (ex_files 1) (ex_segs 2)
       = Inl (IndexOutOfRange (- 1) 1)
   \<and> resume_scan same_results (ex_h 2 False) (ex_io 200 ''200 OK'' 3) [] (ex_segs 2)
       = Inl (IndexOutOfRange (- 1) 0)"
  using fast_scan_few_files_panics [where h = "ex_h 2 False" and files = "ex_files 1"
      and segs = "ex_segs 2" and same = same_results and w = "ex_io 200 ''200 OK'' 3"]
    fast_scan_few_files_panics [where h = "ex_h 2 False" and files = "[]"
      and segs = "ex_segs 2" and same = same_results and w = "ex_io 200 ''200 OK'' 3"]
  by (simp add: ex_h_def ex_files_def ex_segs_def)

text \<open>
  What the fast scan computes when there are more files than workers: a segment is marked
  when its path is among the oldest \<open>len(files) - workers\<close> files, or among the newest
  \<open>workers + 1\<close> files with a positive comparison; the files for which the two sizes are
  asked are the newest \<open>workers + 1\<close> files that belong to a segment.  So the segments of
  the oldest \<open>len(files) - (workers + 1)\<close> files are marked without a request, as long as
  no name is listed twice.
\<close>

lemma trust_loop_closed:
  "- 1 \<le> i \<Longrightarrow> i < int (length files) \<Longrightarrow>
   trust_loop files i segs
     = Inr (map (\<lambda>s. if Path s \<in> set (take (nat (i + 1)) files) then s\<lparr>Exists := True\<rparr> else s)
              segs)"
proof (induction files i segs rule: trust_loop.induct)
  case (1 files i segs)
  show ?case
  proof (cases "0 \<le> i")
    case False
    with "1.prems" have "i = - 1" by simp
    then show ?thesis by (subst trust_loop.simps) simp
  next
    case True
    with "1.prems" have n: "nat i < length files" "nat (i + 1) = Suc (nat i)"
      "nat (i - 1 + 1) = nat i" by auto
    show ?thesis
    proof (cases "segs = []")
      case e: True
      with True "1.IH"(1) [OF True e] "1.prems" show ?thesis
        by (subst trust_loop.simps) simp
    next
      case False
      from True "1.prems" have f: "index files i = Inr (files ! nat i)"
        by (simp add: index_def)
      from "1.IH"(2) [OF True False f] True "1.prems" n
      have "trust_loop files (i - 1) (map (trust (files ! nat i)) segs)
          = Inr (map (\<lambda>s. if Path s \<in> set (take (nat i) files) then s\<lparr>Exists := True\<rparr> else s)
                  (map (trust (files ! nat i)) segs))"
        by simp
      also have "map (\<lambda>s. if Path s \<in> set (take (nat i) files) then s\<lparr>Exists := True\<rparr> else s)
                  (map (trust (files ! nat i)) segs)
          = map (\<lambda>s. if Path s \<in> set (take (nat (i + 1)) files) then s\<lparr>Exists := True\<rparr> else s)
              segs"
        using n by (auto simp: trust_def take_Suc_conv_app_nth)
      finally show ?thesis using True False f
        by (subst trust_loop.simps) simp
    qed
  qed
qed

lemma image_Path_map: "(\<And>s. Path (g s) = Path s) \<Longrightarrow> Path ` set (map g segs) = Path ` set segs"
  by (simp add: image_image)

lemma sizes_Exists [simp]:
  "getFileSize w (s\<lparr>Exists := b\<rparr>) = getFileSize w s"
  "getSegmentSize h w (s\<lparr>Exists := b\<rparr>) = getSegmentSize h w s"
  by (simp_all add: getFileSize_def getSegmentSize_def)

lemma verify_loop_closed:
  "0 \<le> lo \<Longrightarrow> lo \<le> i + 1 \<Longrightarrow> i < int (length files) \<Longrightarrow>
   \<exists>probed'. verify_loop same h w files lo i (segs, probed)
       = Inr (map (\<lambda>s. if Path s \<in> set (drop (nat lo) (take (nat (i + 1)) files))
                           \<and> same (getFileSize w s) (getSegmentSize h w s)
                        then s\<lparr>Exists := True\<rparr> else s) segs, probed')
     \<and> set probed' = set probed \<union> (Path ` set segs \<inter> set (drop (nat lo) (take (nat (i + 1)) files)))"
proof (induction same h w files lo i "(segs, probed)" arbitrary: segs probed
    rule: verify_loop.induct)
  case (1 same h w files lo i segs probed)
  show ?case
  proof (cases "lo \<le> i")
    case False
    with "1.prems" have "nat (i + 1) \<le> nat lo" by simp
    with False show ?thesis by (subst verify_loop.simps) simp
  next
    case True
    with "1.prems" have n: "nat i < length files" "nat (i + 1) = Suc (nat i)"
      "nat (i - 1 + 1) = nat i" "nat lo \<le> nat i" by auto
    then have win: "drop (nat lo) (take (nat (i + 1)) files)
        = drop (nat lo) (take (nat i) files) @ [files ! nat i]"
      by (simp add: take_Suc_conv_app_nth)
    show ?thesis
    proof (cases "segs = []")
      case e: True
      from "1.hyps"(1) [OF True e] True "1.prems" e show ?thesis
        by (subst verify_loop.simps) simp
    next
      case False
      let ?f = "files ! nat i"
      let ?segs1 = "map (verify same h w ?f) segs"
      let ?probed1 = "probed @ map Path (filter (\<lambda>seg. Path seg = ?f) segs)"
      from True "1.prems" have f: "index files i = Inr ?f"
        by (simp add: index_def)
      from "1.hyps"(2) [OF True False f] True "1.prems" n obtain probed' where
        r: "verify_loop same h w files lo (i - 1) (?segs1, ?probed1)
          = Inr (map (\<lambda>s. if Path s \<in> set (drop (nat lo) (take (nat i) files))
                           \<and> same (getFileSize w s) (getSegmentSize h w s)
                        then s\<lparr>Exists := True\<rparr> else s) ?segs1, probed')" and
        p: "set probed' = set ?probed1
              \<union> (Path ` set ?segs1 \<inter> set (drop (nat lo) (take (nat i) files)))"
        by auto
      have paths: "Path ` set ?segs1 = Path ` set segs"
        by (rule image_Path_map) (simp add: verify_def)
      have m: "map (\<lambda>s. if Path s \<in> set (drop (nat lo) (take (nat i) files))
                           \<and> same (getFileSize w s) (getSegmentSize h w s)
                        then s\<lparr>Exists := True\<rparr> else s) ?segs1
          = map (\<lambda>s. if Path s \<in> set (drop (nat lo) (take (nat (i + 1)) files))
                           \<and> same (getFileSize w s) (getSegmentSize h w s)
                        then s\<lparr>Exists := True\<rparr> else s) segs"
        by (auto simp: win verify_def)
      have "set probed' = set probed
          \<union> (Path ` set segs \<inter> set (drop (nat lo) (take (nat (i + 1)) files)))"
        unfolding p paths win by (auto intro: rev_image_eqI)
      with r m True False f show ?thesis
        by (subst verify_loop.simps) simp
    qed
  qed
qed

lemma fast_scan_window:
  assumes "\<not> checkAllSegments h" and "0 \<le> workers h" and "workers h < int (length files)"
  shows "\<exists>probed. resume_scan same h w files segs
      = Inr (map (\<lambda>s. if Path s \<in> set (take (length files - nat (workers h)) files)
                          \<or> Path s \<in> set (drop (length files - 1 - nat (workers h)) files)
                            \<and> same (getFileSize w s) (getSegmentSize h w s)
                       then s\<lparr>Exists := True\<rparr> else s) segs, probed)
    \<and> set probed = Path ` set segs \<inter> set (drop (length files - 1 - nat (workers h)) files)"
proof -
  let ?M = "int (length files)"
  let ?b = "?M - 1 - workers h"
  from assms have b: "0 \<le> ?b" "?b < ?M" "nat (?b + 1) = length files - nat (workers h)"
    "nat ?b = length files - 1 - nat (workers h)" by auto
  from trust_loop_closed [of ?b files segs] b
  have t: "trust_loop files ?b segs
     = Inr (map (\<lambda>s. if Path s \<in> set (take (length files - nat (workers h)) files)
                      then s\<lparr>Exists := True\<rparr> else s) segs)"
    by simp
  let ?segs1 = "map (\<lambda>s. if Path s \<in> set (take (length files - nat (workers h)) files)
                      then s\<lparr>Exists := True\<rparr> else s) segs"
  from verify_loop_closed [of ?b "?M - 1" files same h w ?segs1 "[]"] b obtain probed where
    v: "verify_loop same h w files ?b (?M - 1) (?segs1, [])
       = Inr (map (\<lambda>s. if Path s \<in> set (drop (length files - 1 - nat (workers h)) files)
                           \<and> same (getFileSize w s) (getSegmentSize h w s)
                        then s\<lparr>Exists := True\<rparr> else s) ?segs1, probed)" and
    p: "set probed = Path ` set ?segs1 \<inter> set (drop (length files - 1 - nat (workers h)) files)"
    by auto
  have paths: "Path ` set ?segs1 = Path ` set segs"
    by (rule image_Path_map) simp
  have m: "map (\<lambda>s. if Path s \<in> set (drop (length files - 1 - nat (workers h)) files)
                           \<and> same (getFileSize w s) (getSegmentSize h w s)
                        then s\<lparr>Exists := True\<rparr> else s) ?segs1
     = map (\<lambda>s. if Path s \<in> set (take (length files - nat (workers h)) files)
                          \<or> Path s \<in> set (drop (length files - 1 - nat (workers h)) files)
                            \<and> same (getFileSize w s) (getSegmentSize h w s)
                       then s\<lparr>Exists := True\<rparr> else s) segs"
    by auto
  from assms(1) t v m p paths show ?thesis
    by (simp add: resume_scan_def scan_fast_def)
qed

text \<open>
  C10.  In fast mode the scan never turns \<open>Exists\<close> from true to false: neither loop
  body does, and a segment marked before the scan is marked after it.  The segment whose
  file sits at the boundary index \<open>len(files) - 1 - workers\<close> is marked by the trusting
  loop and visited again by the verifying loop, which asks its sizes; it is marked at the
  end whatever the comparison of line 156 says.
\<close>

theorem exists_never_reset:
  assumes "\<not> checkAllSegments h"
    and "resume_scan same h w files segs = Inr (segs', probed)"
    and "k < length segs"
  shows "length segs' = length segs
    \<and> Path (segs' ! k) = Path (segs ! k)
    \<and> (Exists (segs ! k) \<longrightarrow> Exists (segs' ! k))
    \<and> (0 \<le> workers h \<and> workers h < int (length files)
        \<and> Path (segs ! k) = files ! (length files - 1 - nat (workers h))
       \<longrightarrow> Exists (segs' ! k) \<and> Path (segs ! k) \<in> set probed)
    \<and> (Exists seg \<longrightarrow> Exists (trust f seg) \<and> Exists (verify same h w f seg))"
proof -
  from assms(1,2) obtain segs1 where
    t: "trust_loop files (int (length files) - 1 - workers h) segs = Inr segs1" and
    v: "verify_loop same h w files (int (length files) - 1 - workers h)
            (int (length files) - 1) (segs1, []) = Inr (segs', probed)"
    by (auto simp: resume_scan_def scan_fast_def split: sum.splits)
  have g1: "list_all2 grows segs segs1" by (rule trust_loop_grows [OF t])
  have g2: "list_all2 grows segs1 segs'" by (rule verify_loop_grows [OF v])
  from g1 g2 have len: "length segs1 = length segs" "length segs' = length segs"
    by (simp_all add: list_all2_lengthD)
  from g1 g2 assms(3) len have gk: "grows (segs ! k) (segs1 ! k)" "grows (segs1 ! k) (segs' ! k)"
    by (simp_all add: list_all2_conv_all_nth)
  have "Exists (segs' ! k) \<and> Path (segs ! k) \<in> set probed"
    if b: "0 \<le> workers h" "workers h < int (length files)"
      "Path (segs ! k) = files ! (length files - 1 - nat (workers h))"
  proof -
    from b have n: "nat (int (length files) - 1 - workers h) = length files - 1 - nat (workers h)"
      "length files - 1 - nat (workers h) < length files"
      by linarith+
    with b have "Exists (segs1 ! k)"
      by (intro trust_loop_marks [OF t _ assms(3)]) auto
    with gk(2) have e: "Exists (segs' ! k)" by (simp add: grows_def)
    from fast_scan_window [OF assms(1) b(1,2), of same w segs] assms(2)
    have "set probed = Path ` set segs \<inter> set (drop (length files - 1 - nat (workers h)) files)"
      by auto
    moreover from n(2) have "files ! (length files - 1 - nat (workers h))
        \<in> set (drop (length files - 1 - nat (workers h)) files)"
      by (metis Cons_nth_drop_Suc list.set_intros(1))
    moreover from assms(3) have "Path (segs ! k) \<in> Path ` set segs" by simp
    ultimately have "Path (segs ! k) \<in> set probed" using b(3) by simp
    with e show ?thesis by simp
  qed
  moreover have "Exists seg \<longrightarrow> Exists (trust f seg) \<and> Exists (verify same h w f seg)"
    by (simp add: trust_def verify_def)
  ultimately show ?thesis using gk len by (auto simp: grows_def)
qed

theorem exists_never_reset_witness:
  "\<not> checkAllSegments (ex_h 2 False)
   \<and> resume_scan same_sizes (ex_h 2 False) (ex_io 200 ''200 OK'' 4) (ex_files 4) (ex_segs 5)
       = Inr ([(ex_seg 0)\<lparr>Exists := True\<rparr>, (ex_seg 1)\<lparr>Exists := True\<rparr>,
               ex_seg 2, ex_seg 3, ex_seg 4],
              [Path (ex_seg 3), Path (ex_seg 2), Path (ex_seg 1)])
   \<and> 0 \<le> workers (ex_h 2 False) \<and> workers (ex_h 2 False) < int (length (ex_files 4))
   \<and> Path (ex_segs 5 ! 1) = ex_files 4 ! (length (ex_files 4) - 1 - nat (workers (ex_h 2 False)))
   \<and> \<not> same_sizes (getFileSize (ex_io 200 ''200 OK'' 4) (ex_seg 1))
          (getSegmentSize (ex_h 2 False) (ex_io 200 ''200 OK'' 4) (ex_seg 1))
   \<and> Exists ([(ex_seg 0)\<lparr>Exists := True\<rparr>, (ex_seg 1)\<lparr>Exists := True\<rparr>,
               ex_seg 2, ex_seg 3, ex_seg 4] ! 1)"
proof -
  have c: "\<not> checkAllSegments (ex_h 2 False)" by (simp add: ex_h_def)
  have r: "resume_scan same_sizes (ex_h 2 False) (ex_io 200 ''200 OK'' 4) (ex_files 4) (ex_segs 5)
       = Inr ([(ex_seg 0)\<lparr>Exists := True\<rparr>, (ex_seg 1)\<lparr>Exists := True\<rparr>,
               ex_seg 2, ex_seg 3, ex_seg 4],
              [Path (ex_seg 3), Path (ex_seg 2), Path (ex_seg 1)])"
    by code_simp
  have k: "1 < length (ex_segs 5)" by (simp add: ex_segs_def)
  have w: "0 \<le> workers (ex_h 2 False)" "workers (ex_h 2 False) < int (length (ex_files 4))"
    by (simp_all add: ex_h_def ex_files_def)
  have p: "Path (ex_segs 5 ! 1)
      = ex_files 4 ! (length (ex_files 4) - 1 - nat (workers (ex_h 2 False)))"
    by code_simp
  have n: "\<not> same_sizes (getFileSize (ex_io 200 ''200 OK'' 4) (ex_seg 1))
          (getSegmentSize (ex_h 2 False) (ex_io 200 ''200 OK'' 4) (ex_seg 1))"
    by (simp add: same_sizes_def getFileSize_def getSegmentSize_def ex_io_def ex_request_def)
  from exists_never_reset [OF c r k] w p have "Exists ([(ex_seg 0)\<lparr>Exists := True\<rparr>,
      (ex_seg 1)\<lparr>Exists := True\<rparr>, ex_seg 2, ex_seg 3, ex_seg 4] ! 1)"
    by blast
  with c r w p n show ?thesis by blast
qed

subsection \<open>The join\<close>

lemma decrypt_cong: "fs (Path s) = fs' (Path s) \<Longrightarrow> decrypt xf fs s = decrypt xf fs' s"
  by (simp add: decrypt_def)

lemma plain_of_cong: "fs (Path s) = fs' (Path s) \<Longrightarrow> plain_of xf fs s = plain_of xf fs' s"
  by (simp add: plain_of_def decrypt_cong [of fs s fs'])

lemma plain_of_decrypt: "decrypt xf fs s = Inr bs \<Longrightarrow> plain_of xf fs s = bs"
  by (simp add: plain_of_def)

lemma append_file_Some: "fs out = Some acc \<Longrightarrow> append_file fs out bs = fs(out \<mapsto> acc @ bs)"
  by (simp add: append_file_def)

lemma passes_cong: "fs (Path s) = fs' (Path s) \<Longrightarrow> passes xf d fs s k = passes xf d fs' s k"
  by (simp add: passes_def decrypt_cong [of fs s fs'])

lemma stops_at_cong:
  "fs (Path s) = fs' (Path s) \<Longrightarrow> stops_at xf d fs s k e part = stops_at xf d fs' s k e part"
  by (simp add: stops_at_def decrypt_cong [of fs s fs'])

lemma stops_at_prefix: "stops_at xf d fs s k e part \<Longrightarrow> prefix part (plain_of xf fs s)"
  by (auto simp: stops_at_def plain_of_def take_is_prefix split: sum.splits option.splits)

lemma join_loop_inv:
  assumes "distinct (map Path S)" and "out \<notin> Path ` set S" and "fs out = Some acc"
    and "join_loop xf d out k fs S = (r, fs')"
  shows "\<exists>done rest part. S = done @ rest
    \<and> fs' out = Some (acc @ concat (map (plain_of xf fs) done) @ part)
    \<and> (\<forall>s\<in>set done. fs' (Path s) = None)
    \<and> (\<forall>p. p \<noteq> out \<longrightarrow> p \<notin> Path ` set done \<longrightarrow> fs' p = fs p)
    \<and> (\<forall>j<length done. passes xf d fs (done ! j) (k + j))
    \<and> (case r of None \<Rightarrow> rest = [] \<and> part = []
        | Some e \<Rightarrow> rest \<noteq> [] \<and> stops_at xf d fs (hd rest) (k + length done) e part)"
  using assms
proof (induction S arbitrary: fs acc k)
  case Nil
  then show ?case by simp
next
  case (Cons seg S)
  show ?case
  proof (cases "decrypt xf fs seg")
    case (Inl e)
    with Cons.prems have "r = Some e" "fs' = fs" by simp_all
    with Cons.prems(3) Inl show ?thesis
      by (intro exI [of _ "[]"] exI [of _ "seg # S"]) (simp add: stops_at_def)
  next
    case (Inr bs)
    then have pl: "plain_of xf fs seg = bs" by (rule plain_of_decrypt)
    show ?thesis
    proof (cases "file_write d k bs")
      case (Some en)
      obtain e n where en: "en = (e, n)" by (cases en)
      with Inr Some Cons.prems have "r = Some e" "fs' = fs(out \<mapsto> acc @ take n bs)"
        by (simp_all add: append_file_Some)
      with pl Inr Some en show ?thesis
        by (intro exI [of _ "[]"] exI [of _ "seg # S"] exI [of _ "take n bs"])
          (simp add: stops_at_def)
    next
      case None
      show ?thesis
      proof (cases "remove_all d (Path seg)")
        case (Some e)
        with Inr None Cons.prems have "r = Some e" "fs' = fs(out \<mapsto> acc @ bs)"
          by (simp_all add: append_file_Some)
        with pl Inr None Some show ?thesis
          by (intro exI [of _ "[]"] exI [of _ "seg # S"] exI [of _ bs]) (simp add: stops_at_def)
      next
        case rm: None
        let ?fs1 = "(fs(out \<mapsto> acc @ bs))(Path seg := None)"
        from Cons.prems(2) have ne: "Path seg \<noteq> out" by auto
        from Inr None rm Cons.prems have run: "join_loop xf d out (Suc k) ?fs1 S = (r, fs')"
          by (simp add: append_file_Some)
        from ne have o1: "?fs1 out = Some (acc @ bs)" by simp
        from Cons.prems have d1: "distinct (map Path S)" "out \<notin> Path ` set S" by auto
        from Cons.IH [OF d1 o1 run] obtain dn rest part where
          S: "S = dn @ rest" and
          o: "fs' out = Some ((acc @ bs) @ concat (map (plain_of xf ?fs1) dn) @ part)" and
          del: "\<forall>s\<in>set dn. fs' (Path s) = None" and
          fr: "\<forall>p. p \<noteq> out \<longrightarrow> p \<notin> Path ` set dn \<longrightarrow> fs' p = ?fs1 p" and
          ps: "\<forall>j<length dn. passes xf d ?fs1 (dn ! j) (Suc k + j)" and
          r: "case r of None \<Rightarrow> rest = [] \<and> part = []
              | Some e \<Rightarrow> rest \<noteq> [] \<and> stops_at xf d ?fs1 (hd rest) (Suc k + length dn) e part"
          by blast
        have same: "?fs1 (Path s) = fs (Path s)" if "s \<in> set S" for s
        proof -
          from that Cons.prems(1,2) have "Path s \<noteq> Path seg" "Path s \<noteq> out"
            by (auto simp: image_iff)
          then show ?thesis by simp
        qed
        from S have "map (plain_of xf ?fs1) dn = map (plain_of xf fs) dn"
          by (intro map_cong refl plain_of_cong same) simp
        with o pl have o': "fs' out
            = Some (acc @ concat (map (plain_of xf fs) (seg # dn)) @ part)"
          by simp
        from Cons.prems(1) S have "Path seg \<notin> Path ` set dn" by auto
        with fr ne have "fs' (Path seg) = None" by simp
        with del have del': "\<forall>s\<in>set (seg # dn). fs' (Path s) = None" by simp
        from fr have fr': "\<forall>p. p \<noteq> out \<longrightarrow> p \<notin> Path ` set (seg # dn) \<longrightarrow> fs' p = fs p"
          by auto
        have ps': "\<forall>j<length (seg # dn). passes xf d fs ((seg # dn) ! j) (k + j)"
        proof (intro allI impI)
          fix j assume j: "j < length (seg # dn)"
          show "passes xf d fs ((seg # dn) ! j) (k + j)"
          proof (cases j)
            case 0
            with Inr None rm show ?thesis by (simp add: passes_def)
          next
            case (Suc j')
            with j have j': "j' < length dn" by simp
            with S have "dn ! j' \<in> set S" by simp
            from passes_cong [of ?fs1 "dn ! j'" fs, OF same [OF this]] ps j' Suc
            show ?thesis by auto
          qed
        qed
        have r': "case r of None \<Rightarrow> rest = [] \<and> part = []
              | Some e \<Rightarrow> rest \<noteq> [] \<and> stops_at xf d fs (hd rest) (k + length (seg # dn)) e part"
        proof (cases r)
          case None
          with r show ?thesis by simp
        next
          case (Some e)
          with r have "rest \<noteq> []" by simp
          with S have "hd rest \<in> set S" by simp
          from stops_at_cong [of ?fs1 "hd rest" fs, OF same [OF this]] r Some
          show ?thesis by simp
        qed
        from S o' del' fr' ps' r' show ?thesis
          by (intro exI [of _ "seg # dn"] exI [of _ rest] exI [of _ part]) simp
      qed
    qed
  qed
qed

lemma join_inv:
  assumes perm: "mset (srt lessSeqId segs) = mset segs"
    and dp: "distinct (map Path segs)"
    and out: "pjoin dr (filename h) \<notin> Path ` set segs"
    and cr: "create_out d (pjoin dr (filename h)) = None"
    and res: "join pjoin srt xf d h dr fs segs = (r, fs')"
  shows "\<exists>done rest part. srt lessSeqId segs = done @ rest
     \<and> fs' (pjoin dr (filename h)) = Some (concat (map (plain_of xf fs) done) @ part)
     \<and> (\<forall>s\<in>set done. fs' (Path s) = None)
     \<and> (\<forall>s\<in>set rest. fs' (Path s) = fs (Path s))
     \<and> (\<forall>j<length done. passes xf d fs (done ! j) j)
     \<and> (case r of Inr p \<Rightarrow> p = pjoin dr (filename h) \<and> rest = [] \<and> part = []
         | Inl e \<Rightarrow> rest \<noteq> [] \<and> stops_at xf d fs (hd rest) (length done) e part)"
proof -
  let ?out = "pjoin dr (filename h)"
  let ?fs0 = "fs(?out \<mapsto> [])"
  obtain r0 where run: "join_loop xf d ?out 0 ?fs0 (srt lessSeqId segs) = (r0, fs')"
    and r: "r = (case r0 of Some e \<Rightarrow> Inl e | None \<Rightarrow> Inr ?out)"
    using res cr by (auto simp: join_def Let_def split: prod.splits option.splits)
  from perm have "mset (map Path (srt lessSeqId segs)) = mset (map Path segs)" by simp
  with dp have dS: "distinct (map Path (srt lessSeqId segs))"
    by (metis mset_eq_imp_distinct_iff)
  from perm have "set (srt lessSeqId segs) = set segs" by (rule mset_eq_setD)
  with out have oS: "?out \<notin> Path ` set (srt lessSeqId segs)" by simp
  have o0: "?fs0 ?out = Some []" by simp
  from join_loop_inv [OF dS oS o0 run] obtain dn rest part where
    S: "srt lessSeqId segs = dn @ rest" and
    o: "fs' ?out = Some ([] @ concat (map (plain_of xf ?fs0) dn) @ part)" and
    del: "\<forall>s\<in>set dn. fs' (Path s) = None" and
    fr: "\<forall>p. p \<noteq> ?out \<longrightarrow> p \<notin> Path ` set dn \<longrightarrow> fs' p = ?fs0 p" and
    ps: "\<forall>j<length dn. passes xf d ?fs0 (dn ! j) (0 + j)" and
    r0: "case r0 of None \<Rightarrow> rest = [] \<and> part = []
         | Some e \<Rightarrow> rest \<noteq> [] \<and> stops_at xf d ?fs0 (hd rest) (0 + length dn) e part"
    by blast
  have same: "?fs0 (Path s) = fs (Path s)" if "s \<in> set (srt lessSeqId segs)" for s
  proof -
    from that oS have "Path s \<noteq> ?out" by (metis imageI)
    then show ?thesis by simp
  qed
  from S have "map (plain_of xf ?fs0) dn = map (plain_of xf fs) dn"
    by (intro map_cong refl plain_of_cong same) simp
  with o have o': "fs' ?out = Some (concat (map (plain_of xf fs) dn) @ part)" by simp
  have keep: "\<forall>s\<in>set rest. fs' (Path s) = fs (Path s)"
  proof
    fix s assume s: "s \<in> set rest"
    with S have "s \<in> set (srt lessSeqId segs)" by simp
    with oS have "Path s \<noteq> ?out" by (metis imageI)
    moreover from s S dS have "Path s \<notin> Path ` set dn" by auto
    ultimately show "fs' (Path s) = fs (Path s)" using fr by simp
  qed
  have ps': "\<forall>j<length dn. passes xf d fs (dn ! j) j"
  proof (intro allI impI)
    fix j assume j: "j < length dn"
    with S have "dn ! j \<in> set (srt lessSeqId segs)" by simp
    from passes_cong [of ?fs0 "dn ! j" fs, OF same [OF this]] ps j
    show "passes xf d fs (dn ! j) j" by auto
  qed
  have r': "case r of Inr p \<Rightarrow> p = ?out \<and> rest = [] \<and> part = []
         | Inl e \<Rightarrow> rest \<noteq> [] \<and> stops_at xf d fs (hd rest) (length dn) e part"
  proof (cases r0)
    case None
    with r r0 show ?thesis by simp
  next
    case (Some e)
    with r0 have "rest \<noteq> []" by simp
    with S have "hd rest \<in> set (srt lessSeqId segs)" by simp
    from stops_at_cong [of ?fs0 "hd rest" fs, OF same [OF this]] r r0 Some
    show ?thesis by simp
  qed
  from S o' del keep ps' r' show ?thesis by blast
qed

lemma join_create_fails:
  "create_out d (pjoin dr (filename h)) = Some e \<Longrightarrow>
   join pjoin srt xf d h dr fs segs = (Inl e, fs)"
  by (simp add: join_def)

lemma lessSeqId_ordering: "transitive_ordering lessSeqId"
  by (auto simp: transitive_ordering_def lessSeqId_def)

lemma sort_Slice_ascending:
  assumes "sort_Slice_contract srt"
  shows "mset (srt lessSeqId segs) = mset segs" and "sorted (map SeqId (srt lessSeqId segs))"
proof -
  from assms show "mset (srt lessSeqId segs) = mset segs"
    by (simp add: sort_Slice_contract_def)
  from assms lessSeqId_ordering
  have "sorted_wrt (\<lambda>a b. \<not> lessSeqId b a) (srt lessSeqId segs)"
    unfolding sort_Slice_contract_def by blast
  then have "sorted_wrt (\<lambda>a b. SeqId a \<le> SeqId b) (srt lessSeqId segs)"
    by (simp add: lessSeqId_def not_less)
  then show "sorted (map SeqId (srt lessSeqId segs))"
    by (simp add: sorted_map)
qed

lemma mset_ex_insert: "mset (ex_insert lt x ys) = add_mset x (mset ys)"
  by (induction ys) simp_all

lemma mset_ex_sort: "mset (ex_sort lt xs) = mset xs"
  by (induction xs) (simp_all add: ex_sort_def mset_ex_insert)

lemma set_ex_insert: "set (ex_insert lt x ys) = insert x (set ys)"
  by (induction ys) auto

lemma sorted_ex_insert:
  assumes "transitive_ordering lt" and "sorted_wrt (\<lambda>a b. \<not> lt b a) ys"
  shows "sorted_wrt (\<lambda>a b. \<not> lt b a) (ex_insert lt x ys)"
  using assms(2)
proof (induction ys)
  case Nil
  then show ?case by simp
next
  case (Cons y ys)
  from assms(1) have asym: "lt a b \<Longrightarrow> \<not> lt b a" for a b
    unfolding transitive_ordering_def by blast
  from assms(1) have trans: "lt a b \<Longrightarrow> lt b c \<Longrightarrow> lt a c" for a b c
    unfolding transitive_ordering_def by blast
  show ?case
  proof (cases "lt x y")
    case True
    from Cons.prems have "\<forall>z\<in>set ys. \<not> lt z y" by simp
    with asym [OF True] have "\<forall>z\<in>set (y # ys). \<not> lt z x" by (auto dest: trans [OF _ True])
    with True Cons.prems show ?thesis by simp
  next
    case False
    from Cons.prems have "sorted_wrt (\<lambda>a b. \<not> lt b a) ys" by simp
    then have "sorted_wrt (\<lambda>a b. \<not> lt b a) (ex_insert lt x ys)" by (rule Cons.IH)
    with False Cons.prems show ?thesis by (simp add: set_ex_insert)
  qed
qed

lemma sorted_ex_sort:
  "transitive_ordering lt \<Longrightarrow> sorted_wrt (\<lambda>a b. \<not> lt b a) (ex_sort lt xs)"
  by (induction xs) (simp_all add: ex_sort_def sorted_ex_insert)

lemma ex_sort_contract: "sort_Slice_contract ex_sort"
  by (simp add: sort_Slice_contract_def mset_ex_sort sorted_ex_sort)

lemma sorted_perm_unique:
  assumes "mset ys = mset xs" and "sorted (map f ys)" and "distinct (map f xs)"
  shows "ys = sort_key f xs"
proof -
  have "sort_key f xs = ys"
  proof (rule properties_for_sort_key)
    show "mset ys = mset xs" by fact
    show "sorted (map f ys)" by fact
    fix k assume k: "k \<in> set ys"
    from assms(1) have "mset (map f ys) = mset (map f xs)" by simp
    with assms(3) have dy: "distinct (map f ys)" by (metis mset_eq_imp_distinct_iff)
    from assms(1) have kx: "k \<in> set xs" using k by (metis mset_eq_setD)
    have one: "filter (\<lambda>x. f k = f x) zs = [k]" if "distinct (map f zs)" "k \<in> set zs" for zs
      using that
    proof (induction zs)
      case Nil
      then show ?case by simp
    next
      case (Cons z zs)
      show ?case
      proof (cases "z = k")
        case True
        with Cons.prems have "\<forall>x\<in>set zs. f k \<noteq> f x" by auto
        then have "filter (\<lambda>x. f k = f x) zs = []" by (simp add: filter_empty_conv)
        with True show ?thesis by simp
      next
        case False
        with Cons.prems have kz: "k \<in> set zs" by auto
        then have "f k \<in> f ` set zs" by (rule imageI)
        with Cons.prems have ne: "f k \<noteq> f z" by auto
        from Cons.prems have "distinct (map f zs)" by simp
        from Cons.IH [OF this kz] ne show ?thesis by simp
      qed
    qed
    from one [OF dy k] one [OF assms(3) kx]
    show "filter (\<lambda>x. f k = f x) ys = filter (\<lambda>x. f k = f x) xs" by simp
  qed
  then show ?thesis by simp
qed

lemma downloadSegment_ok:
  "downloadSegment h w fs seg = (None, fs') \<Longrightarrow> fs' = fs(Path seg \<mapsto> body_of h w seg)"
  by (auto simp: downloadSegment_def body_of_def split: sum.splits option.splits if_splits)

lemma fetch_all_files:
  assumes "fetch_all h ws fs order = (None, fs1)" and "distinct (map Path order)"
  shows "(\<forall>s\<in>set order. fs1 (Path s) = Some (body_of h (ws s) s))
       \<and> (\<forall>p. p \<notin> Path ` set order \<longrightarrow> fs1 p = fs p)"
  using assms
proof (induction order arbitrary: fs)
  case Nil
  then show ?case by simp
next
  case (Cons seg rest)
  from Cons.prems(1) obtain fs' where
    d: "downloadSegment h (ws seg) fs seg = (None, fs')" and
    f: "fetch_all h ws fs' rest = (None, fs1)"
    by (auto split: prod.splits option.splits)
  from downloadSegment_ok [OF d] have fs': "fs' = fs(Path seg \<mapsto> body_of h (ws seg) seg)" .
  from Cons.prems(2) have dr: "distinct (map Path rest)" and ni: "Path seg \<notin> Path ` set rest"
    by auto
  from Cons.IH [OF f dr] have
    a: "\<forall>s\<in>set rest. fs1 (Path s) = Some (body_of h (ws s) s)" and
    b: "\<forall>p. p \<notin> Path ` set rest \<longrightarrow> fs1 p = fs' p"
    by blast+
  from b ni fs' have "fs1 (Path seg) = Some (body_of h (ws seg) seg)" by simp
  moreover from b fs' have "\<forall>p. p \<notin> Path ` set (seg # rest) \<longrightarrow> fs1 p = fs p" by auto
  ultimately show ?case using a by simp
qed

text \<open>
  C7.  Let the sorted list have pairwise different staging paths, none of them the output
  path.  If the output file cannot be created, \<open>join\<close> returns that error and changes
  nothing.  Otherwise the sorted list splits into the segments done and the rest: for
  each segment done, decrypting, writing and removing succeeded; the output file holds
  the plaintexts of the segments done, in order, followed by a prefix of the plaintext
  of the first of the rest; the staging files of the segments done are gone, so a
  staging file is gone only when its plaintext is in the output; the staging files of
  the rest are as they were.  On success the rest is empty.  Otherwise \<open>join\<close> returns
  the error of the step that failed for the first segment of the rest, and has not
  touched the segments after it.
\<close>

theorem join_stops_in_place:
  assumes "mset (srt lessSeqId segs) = mset segs"
    and "distinct (map Path segs)"
    and "pjoin dr (filename h) \<notin> Path ` set segs"
    and "join pjoin srt xf d h dr fs segs = (r, fs')"
  shows "case create_out d (pjoin dr (filename h)) of
      Some e \<Rightarrow> r = Inl e \<and> fs' = fs
    | None \<Rightarrow>
        (\<exists>done rest part. srt lessSeqId segs = done @ rest
          \<and> fs' (pjoin dr (filename h)) = Some (concat (map (plain_of xf fs) done) @ part)
          \<and> (\<forall>s\<in>set done. fs' (Path s) = None)
          \<and> (\<forall>s\<in>set rest. fs' (Path s) = fs (Path s))
          \<and> (\<forall>j<length done. passes xf d fs (done ! j) j)
          \<and> (case r of Inr p \<Rightarrow> p = pjoin dr (filename h) \<and> rest = [] \<and> part = []
              | Inl e \<Rightarrow> rest \<noteq> [] \<and> stops_at xf d fs (hd rest) (length done) e part
                  \<and> prefix part (plain_of xf fs (hd rest))))"
proof (cases "create_out d (pjoin dr (filename h))")
  case None
  from join_inv [OF assms(1-3) None assms(4)] obtain dn rest part where
    a: "srt lessSeqId segs = dn @ rest"
      "fs' (pjoin dr (filename h)) = Some (concat (map (plain_of xf fs) dn) @ part)"
      "\<forall>s\<in>set dn. fs' (Path s) = None"
      "\<forall>s\<in>set rest. fs' (Path s) = fs (Path s)"
      "\<forall>j<length dn. passes xf d fs (dn ! j) j" and
    r: "case r of Inr p \<Rightarrow> p = pjoin dr (filename h) \<and> rest = [] \<and> part = []
         | Inl e \<Rightarrow> rest \<noteq> [] \<and> stops_at xf d fs (hd rest) (length dn) e part"
    by blast
  from r have "case r of Inr p \<Rightarrow> p = pjoin dr (filename h) \<and> rest = [] \<and> part = []
         | Inl e \<Rightarrow> rest \<noteq> [] \<and> stops_at xf d fs (hd rest) (length dn) e part
             \<and> prefix part (plain_of xf fs (hd rest))"
    by (auto split: sum.splits dest: stops_at_prefix)
  with a None show ?thesis by auto
next
  case (Some e)
  from join_create_fails [of d pjoin dr h e srt xf fs segs] assms(4) Some show ?thesis by simp
qed

theorem join_stops_in_place_witness:
  "mset (ex_sort lessSeqId ex_mixed) = mset ex_mixed
   \<and> distinct (map Path ex_mixed)
   \<and> ex_join ''download'' (filename (ex_h 2 False)) \<notin> Path ` set ex_mixed
   \<and> create_out ex_disk_full (ex_join ''download'' (filename (ex_h 2 False))) = None
   \<and> fst (join ex_join ex_sort ex_cipher ex_disk_full (ex_h 2 False) ''download''
             ex_staged ex_mixed) = Inl (Err ''no space left on device'')
   \<and> map (snd (join ex_join ex_sort ex_cipher ex_disk_full (ex_h 2 False) ''download''
             ex_staged ex_mixed))
        [''download/video.ts'', Path (ex_seg 0), Path (ex_seg 1), Path (ex_seg 2)]
      = [Some [10, 11, 21], None, Some [20, 22], Some [30, 31, 32]]
   \<and> passes ex_cipher ex_disk_full ex_staged (ex_seg 0) 0
   \<and> stops_at ex_cipher ex_disk_full ex_staged ((ex_seg 1)\<lparr>Key := Some ex_key\<rparr>) 1
        (Err ''no space left on device'') [21]"
proof -
  have g: "passes ex_cipher ex_disk_full ex_staged (ex_seg 0) 0" by code_simp
  have i: "stops_at ex_cipher ex_disk_full ex_staged ((ex_seg 1)\<lparr>Key := Some ex_key\<rparr>) 1
        (Err ''no space left on device'') [21]"
    by code_simp
  have a: "mset (ex_sort lessSeqId ex_mixed) = mset ex_mixed" by (rule mset_ex_sort)
  have b: "distinct (map Path ex_mixed)" by code_simp
  have c: "ex_join ''download'' (filename (ex_h 2 False)) \<notin> Path ` set ex_mixed" by code_simp
  have d: "create_out ex_disk_full (ex_join ''download'' (filename (ex_h 2 False))) = None"
    by code_simp
  have e: "fst (join ex_join ex_sort ex_cipher ex_disk_full (ex_h 2 False) ''download''
             ex_staged ex_mixed) = Inl (Err ''no space left on device'')"
    by code_simp
  have f: "map (snd (join ex_join ex_sort ex_cipher ex_disk_full (ex_h 2 False) ''download''
             ex_staged ex_mixed))
        [''download/video.ts'', Path (ex_seg 0), Path (ex_seg 1), Path (ex_seg 2)]
      = [Some [10, 11, 21], None, Some [20, 22], Some [30, 31, 32]]"
    by code_simp
  note t = join_stops_in_place [where pjoin = ex_join and srt = ex_sort
      and xf = ex_cipher and d = ex_disk_full and h = "ex_h 2 False" and dr = "''download''"
      and fs = ex_staged and segs = ex_mixed, OF a b c surjective_pairing]
  from t a b c d e f g i show ?thesis by blast
qed

text \<open>
  C1.  Let \<open>sort.Slice\<close> keep the promise of the Go library, and let the segments have
  pairwise different sequence ids and staging paths, none of them the output path.
  Whatever the order in which the fetches of the segments not marked \<open>Exists\<close>
  complete, if all of them and the join succeed, the output file holds the
  concatenation of the decrypted segments in ascending order of \<open>SeqId\<close>, where a
  fetched segment is the body of its response and a marked segment is the staging file
  the directory held before; the staging files are gone.  The completion order does not
  occur in the result.  The ascending order comes from the comparison of lines 266-268.
\<close>

theorem join_output_sorted:
  assumes lib: "sort_Slice_contract srt"
    and order: "mset order = mset (filter (\<lambda>s. \<not> Exists s) segs)"
    and ids: "distinct (map SeqId segs)"
    and paths: "distinct (map Path segs)"
    and out: "pjoin dr (filename h) \<notin> Path ` set segs"
    and fetched: "fetch_all h ws fs0 order = (None, fs1)"
    and joined: "join pjoin srt xf d h dr fs1 segs = (Inr p, fs2)"
  shows "p = pjoin dr (filename h)
    \<and> fs2 p = Some (concat (map (\<lambda>s. plain_of xf
                                 (if Exists s then fs0 else [Path s \<mapsto> body_of h (ws s) s]) s)
                               (sort_key SeqId segs)))
    \<and> (\<forall>s\<in>set segs. fs2 (Path s) = None)
    \<and> sorted (map SeqId (sort_key SeqId segs)) \<and> mset (sort_key SeqId segs) = mset segs"
proof -
  let ?out = "pjoin dr (filename h)"
  let ?staged = "\<lambda>s. if Exists s then fs0 else [Path s \<mapsto> body_of h (ws s) s]"
  note perm = sort_Slice_ascending(1) [OF lib, of segs]
  note asc = sort_Slice_ascending(2) [OF lib, of segs]
  have cr: "create_out d ?out = None"
  proof (cases "create_out d ?out")
    case (Some e)
    from join_create_fails [of d pjoin dr h e srt xf fs1 segs] Some joined show ?thesis by simp
  qed simp
  from join_inv [OF perm paths out cr joined] have
    p: "p = ?out" and
    o: "fs2 ?out = Some (concat (map (plain_of xf fs1) (srt lessSeqId segs)))" and
    del: "\<forall>s\<in>set (srt lessSeqId segs). fs2 (Path s) = None"
    by auto
  from sorted_perm_unique [OF perm asc ids] have S: "srt lessSeqId segs = sort_key SeqId segs" .
  from order have "mset (map Path order) = mset (map Path (filter (\<lambda>s. \<not> Exists s) segs))"
    by simp
  moreover from paths have "distinct (map Path (filter (\<lambda>s. \<not> Exists s) segs))"
    by (rule distinct_map_filter)
  ultimately have dO: "distinct (map Path order)" by (metis mset_eq_imp_distinct_iff)
  from order have so: "set order = {s \<in> set segs. \<not> Exists s}"
    by (metis mset_eq_setD set_filter)
  note fa = fetch_all_files [OF fetched dO]
  have st: "fs1 (Path s) = ?staged s (Path s)" if s: "s \<in> set segs" for s
  proof (cases "Exists s")
    case False
    with s so fa show ?thesis by simp
  next
    case True
    have "Path s \<notin> Path ` set order"
    proof
      assume "Path s \<in> Path ` set order"
      then obtain s' where s': "s' \<in> set order" "Path s = Path s'" by auto
      with so have "s' \<in> set segs" "\<not> Exists s'" by auto
      moreover from paths have "inj_on Path (set segs)" by (simp add: distinct_map)
      ultimately have "s = s'" using s s'(2) by (auto dest: inj_onD)
      with True \<open>\<not> Exists s'\<close> show False by simp
    qed
    with fa True show ?thesis by simp
  qed
  have "map (plain_of xf fs1) (sort_key SeqId segs)
      = map (\<lambda>s. plain_of xf (?staged s) s) (sort_key SeqId segs)"
  proof (rule map_cong [OF refl])
    fix s assume "s \<in> set (sort_key SeqId segs)"
    then have "s \<in> set segs" by simp
    from st [OF this] show "plain_of xf fs1 s = plain_of xf (?staged s) s"
      by (rule plain_of_cong)
  qed
  with o S p have "fs2 p = Some (concat (map (\<lambda>s. plain_of xf (?staged s) s)
                               (sort_key SeqId segs)))"
    by simp
  moreover from perm have "set (srt lessSeqId segs) = set segs" by (rule mset_eq_setD)
  ultimately show ?thesis using p del by simp
qed

theorem join_output_sorted_witness:
  "sort_Slice_contract (ex_sort :: (segment \<Rightarrow> segment \<Rightarrow> bool) \<Rightarrow> segment list \<Rightarrow> segment list)
   \<and> mset [ex_resumed ! 2, ex_resumed ! 0] = mset (filter (\<lambda>s. \<not> Exists s) ex_resumed)
   \<and> distinct (map SeqId ex_resumed) \<and> distinct (map Path ex_resumed)
   \<and> ex_join ''download'' (filename (ex_h 2 False)) \<notin> Path ` set ex_resumed
   \<and> fst (fetch_all (ex_h 2 False) ex_ws ex_kept [ex_resumed ! 2, ex_resumed ! 0]) = None
   \<and> fst (join ex_join ex_sort ex_cipher ex_disk (ex_h 2 False) ''download''
        (snd (fetch_all (ex_h 2 False) ex_ws ex_kept [ex_resumed ! 2, ex_resumed ! 0]))
        ex_resumed) = Inr ''download/video.ts''
   \<and> snd (join ex_join ex_sort ex_cipher ex_disk (ex_h 2 False) ''download''
        (snd (fetch_all (ex_h 2 False) ex_ws ex_kept [ex_resumed ! 2, ex_resumed ! 0]))
        ex_resumed) ''download/video.ts'' = Some [10, 11, 2, 8, 2, 7]
   \<and> map SeqId (ex_sort lessSeqId ex_resumed) = [0, 1, 2]"
proof -
  let ?order = "[ex_resumed ! 2, ex_resumed ! 0]"
  let ?fetch = "fetch_all (ex_h 2 False) ex_ws ex_kept ?order"
  let ?join = "join ex_join ex_sort ex_cipher ex_disk (ex_h 2 False) ''download''
        (snd ?fetch) ex_resumed"
  note lib = ex_sort_contract [where ?'a = segment]
  have a: "mset ?order = mset (filter (\<lambda>s. \<not> Exists s) ex_resumed)"
    by (simp add: ex_resumed_def ex_seg_def)
  have b: "distinct (map SeqId ex_resumed)" by code_simp
  have c: "distinct (map Path ex_resumed)" by code_simp
  have d: "ex_join ''download'' (filename (ex_h 2 False)) \<notin> Path ` set ex_resumed"
    by code_simp
  have g: "fst ?fetch = None" by code_simp
  then have g': "?fetch = (None, snd ?fetch)" by (metis prod.collapse)
  have i: "fst ?join = Inr ''download/video.ts''" by code_simp
  then have i': "?join = (Inr ''download/video.ts'', snd ?join)" by (metis prod.collapse)
  have v: "concat (map (\<lambda>s. plain_of ex_cipher
               (if Exists s then ex_kept else [Path s \<mapsto> body_of (ex_h 2 False) (ex_ws s) s]) s)
             (sort_key SeqId ex_resumed)) = [10, 11, 2, 8, 2, 7]"
    by code_simp
  have k: "map SeqId (ex_sort lessSeqId ex_resumed) = [0, 1, 2]" by code_simp
  from join_output_sorted [OF lib a b c d g' i']
  have "snd ?join ''download/video.ts''
      = Some (concat (map (\<lambda>s. plain_of ex_cipher
               (if Exists s then ex_kept else [Path s \<mapsto> body_of (ex_h 2 False) (ex_ws s) s]) s)
             (sort_key SeqId ex_resumed)))"
    by blast
  then have "snd ?join ''download/video.ts'' = Some [10, 11, 2, 8, 2, 7]" unfolding v .
  with lib a b c d g i k show ?thesis by blast
qed

subsection \<open>A fetch task: retries and skipped segments\<close>





lemma download_loop_sends:
  "download_loop h quit ws seg tried fs = (c, es, fs') \<Longrightarrow>
     (c = Next \<longrightarrow> filter is_Send es = [])
   \<and> (c = Return \<longrightarrow> length (filter is_Send es) \<le> 1
        \<and> (\<forall>r. Send r \<in> set es \<longrightarrow> ResErr r \<noteq> None))"
proof (induction h quit ws seg tried fs arbitrary: c es fs' rule: download_loop.induct)
  case (1 h quit ws seg tried fs)
  obtain r fs1 where d: "downloadSegment h (ws (tried + 1)) fs seg = (r, fs1)"
    by (cases "downloadSegment h (ws (tried + 1)) fs seg")
  show ?case
  proof (cases "quit (tried + 1)")
    case True
    with "1.prems" show ?thesis by (subst (asm) download_loop.simps) auto
  next
    case q: False
    show ?thesis
    proof (cases r)
      case None
      with d q "1.prems" show ?thesis
        by (subst (asm) download_loop.simps) auto
    next
      case (Some err)
      show ?thesis
      proof (cases "retryable err (tried + 1)")
        case False
        with d q Some "1.prems" show ?thesis
          by (subst (asm) download_loop.simps) (auto simp: failure_def)
      next
        case True
        obtain c1 es1 fs2 where
          rec: "download_loop h quit ws seg (tried + 1) fs1 = (c1, es1, fs2)"
          by (cases "download_loop h quit ws seg (tried + 1) fs1") auto
        from True d q Some "1.prems" rec
        have eq: "c = c1" "es = Fetch (SeqId seg) # Sleep Second # es1"
          by (subst (asm) download_loop.simps, simp)+
        from "1.IH" [OF q d [symmetric] _ True rec] Some
        have "(c1 = Next \<longrightarrow> filter is_Send es1 = [])
          \<and> (c1 = Return \<longrightarrow> length (filter is_Send es1) \<le> 1
              \<and> (\<forall>r. Send r \<in> set es1 \<longrightarrow> ResErr r \<noteq> None))"
          by simp
        with eq show ?thesis by simp
      qed
    qed
  qed
qed



text \<open>
  For a segment marked \<open>Exists\<close> the fetch task calls \<open>downloadSegment\<close> not at all,
  leaves the staging directory alone, sends exactly one result, a success with the
  sequence id of the segment, and goes on to the next segment.  Whenever a task goes on
  to the next segment it has sent exactly one result, that success; and the coordinator
  answers a success that it receives with one increment of the progress bar, when the
  bar is enabled.  That it receives every success is not so, as shown further below.
\<close>

lemma skipped_segment_sends_once:
  "(Exists seg \<longrightarrow>
      fetch_task h quit ws fs seg = (Next, [Send (success seg)], fs)
    \<and> ResErr (success seg) = None \<and> ResSeqId (success seg) = SeqId seg
    \<and> aggregate h (success seg) n = (None, if enableBar h then n + 1 else n))
   \<and> (fetch_task h quit ws fs seg = (Next, es, fs') \<longrightarrow>
        filter is_Send es = [Send (success seg)]
      \<and> aggregate h (success seg) n = (None, if enableBar h then n + 1 else n))"
proof -
  have a: "aggregate h (success seg) n = (None, if enableBar h then n + 1 else n)"
    by (simp add: aggregate_def success_def)
  have b: "filter is_Send es = [Send (success seg)]"
    if t: "fetch_task h quit ws fs seg = (Next, es, fs')"
  proof (cases "Exists seg")
    case True
    with t show ?thesis by (auto simp: fetch_task_def)
  next
    case False
    obtain c1 es1 fs1 where rec: "download_loop h quit ws seg 0 fs = (c1, es1, fs1)"
      by (cases "download_loop h quit ws seg 0 fs") auto
    with False t have "c1 = Next" "es = es1 @ [Send (success seg)]"
      by (auto simp: fetch_task_def split: control.splits)
    with download_loop_sends [OF rec] show ?thesis by simp
  qed
  from a b show ?thesis by (simp add: fetch_task_def success_def)
qed

subsection \<open>The worker pool: cancellation\<close>

lemma handed_append [simp]: "handed (a @ b) = handed a @ handed b"
  by (induction a rule: handed.induct) simp_all

lemma fetched_append [simp]: "fetched (a @ b) = fetched a @ fetched b"
  by (induction a rule: fetched.induct) simp_all

lemma received_append [simp]: "received (a @ b) = received a @ received b"
  by (induction a rule: received.induct) simp_all

lemma after_cancel_append:
  "after_cancel (tr @ es) = (if Cancelled \<in> set tr then after_cancel tr @ es else after_cancel es)"
proof (cases "Cancelled \<in> set tr")
  case True
  then have "dropWhile (\<lambda>e. e \<noteq> Cancelled) tr \<noteq> []" by auto
  with True show ?thesis by (auto simp: after_cancel_def dropWhile_append)
next
  case False
  then show ?thesis by (auto simp: after_cancel_def dropWhile_append)
qed

lemma after_cancel_none: "Cancelled \<notin> set tr \<Longrightarrow> after_cancel tr = []"
proof -
  assume "Cancelled \<notin> set tr"
  then have "dropWhile (\<lambda>e. e \<noteq> Cancelled) tr = []" by (auto simp: dropWhile_eq_Nil_conv)
  then show ?thesis unfolding after_cancel_def by (simp only: list.sel)
qed

lemma after_cancel_single [simp]: "after_cancel [e] = []"
  by (simp add: after_cancel_def)

lemma after_cancel_pair [simp]: "after_cancel [e, e'] = (if e = Cancelled then [e'] else [])"
  by (simp add: after_cancel_def)

lemma after_cancel_received [simp]: "after_cancel [Received r, Cancelled, e] = [e]"
  by (simp add: after_cancel_def)

lemma in_set_updateD: "a \<in> set (xs[w := v]) \<Longrightarrow> a = v \<or> a \<in> set xs"
  using set_update_subset_insert [of xs w v] by auto

lemma pool_inv_start: "start h fs segs = Inr s \<Longrightarrow> pool_inv s"
  by (auto simp: start_def pool_inv_def late_handed_def after_cancel_def split: if_splits)

lemma pool_inv_take_result: "pool_inv s \<Longrightarrow> take_result h s = Some s' \<Longrightarrow> pool_inv s'"
  by (auto simp: take_result_def pool_inv_def late_handed_def after_cancel_append aggregate_def
      split: if_splits list.splits option.splits prod.splits)

lemma pool_inv_assign: "pool_inv s \<Longrightarrow> assign_step pj h s = Some s' \<Longrightarrow> pool_inv s'"
  by (auto simp: assign_step_def pool_inv_def late_handed_def split: if_splits)

lemma pool_inv_stop: "pool_inv s \<Longrightarrow> stop_step s = Some s' \<Longrightarrow> pool_inv s'"
  by (auto simp: stop_step_def pool_inv_def late_handed_def split: if_splits)

lemma pool_inv_wait: "pool_inv s \<Longrightarrow> wait_step s = Some s' \<Longrightarrow> pool_inv s'"
  by (auto simp: wait_step_def pool_inv_def late_handed_def split: if_splits)

lemma pool_inv_take_finished: "pool_inv s \<Longrightarrow> take_finished s = Some s' \<Longrightarrow> pool_inv s'"
  by (auto simp: take_finished_def pool_inv_def late_handed_def after_cancel_append
      split: if_splits)


lemma late_handed_none: "\<not> quitChan s \<Longrightarrow> pool_inv s \<Longrightarrow> late_handed s = []"
  by (simp add: pool_inv_def late_handed_def after_cancel_none)

lemma pool_inv_hand:
  assumes inv: "pool_inv s" and st: "hand_step w s = Some s'"
  shows "pool_inv s'"
proof -
  let ?t = "receive (store s ! nxt s) (nxt s)"
  from st have s': "s' = s\<lparr>tasks := (tasks s)[w := ?t], nxt := nxt s + 1,
      dispatcher := Assigning, trace := trace s @ [Handed (nxt s) w]\<rparr>"
    by (auto simp: hand_step_def split: if_splits)
  have nr: "Run i t \<noteq> ?t" for i t by (simp add: receive_def)
  have nt: "Try i t \<noteq> ?t" if "i \<noteq> nxt s" for i t using that by (auto simp: receive_def)
  have late: "set (late_handed s') \<subseteq> insert (nxt s) (set (late_handed s))"
    by (auto simp: s' late_handed_def after_cancel_append)
  have D: "i \<notin> set (fetched (trace s')) \<and> (\<forall>t. Run i t \<notin> set (tasks s'))"
    if "i \<in> set (late_handed s')" for i
  proof -
    from that late have "i = nxt s \<or> i \<in> set (late_handed s)" by auto
    with inv have "i \<notin> set (fetched (trace s)) \<and> (\<forall>t. Run i t \<notin> set (tasks s))"
      by (auto simp: pool_inv_def)
    then show ?thesis using nr by (auto simp: s' dest!: in_set_updateD)
  qed
  have E: "i \<notin> set (fetched (trace s'))
      \<and> (\<forall>t. Run i t \<notin> set (tasks s') \<and> Try i t \<notin> set (tasks s'))"
    if "nxt s' \<le> i" for i
  proof -
    from that have i: "nxt s \<le> i" "i \<noteq> nxt s" by (simp_all add: s')
    with inv have "i \<notin> set (fetched (trace s))
        \<and> (\<forall>t. Run i t \<notin> set (tasks s) \<and> Try i t \<notin> set (tasks s))"
      by (simp add: pool_inv_def)
    with i show ?thesis using nr nt by (auto simp: s' dest!: in_set_updateD)
  qed
  from inv have "(quitChan s' \<longleftrightarrow> Cancelled \<in> set (trace s'))
      \<and> (quitChan s' \<longleftrightarrow> (\<exists>e. returned s' = Some (Some e)))
      \<and> (\<forall>e. returned s' = Some (Some e) \<longrightarrow>
           (\<exists>oks r. received (trace s') = oks @ [r] \<and> ResErr r = Some e
              \<and> (\<forall>r' \<in> set oks. ResErr r' = None)))
      \<and> ((\<forall>e. returned s' \<noteq> Some (Some e)) \<longrightarrow> (\<forall>r \<in> set (received (trace s')). ResErr r = None))"
    by (auto simp: pool_inv_def s')
  with D E show ?thesis unfolding pool_inv_def by blast
qed


lemma pool_inv_task_update:
  assumes inv: "pool_inv s"
    and tr: "trace s' = trace s @ es" and ts: "tasks s' = (tasks s)[w := v]"
    and same: "quitChan s' = quitChan s" "returned s' = returned s" "nxt s' = nxt s"
    and es: "Cancelled \<notin> set es" "handed es = []" "received es = []"
    and f: "\<forall>i \<in> set (fetched es). i < nxt s \<and> i \<notin> set (late_handed s)"
    and vr: "\<forall>i t. v = Run i t \<longrightarrow> i < nxt s \<and> \<not> quitChan s"
    and vt: "\<forall>i t. v = Try i t \<longrightarrow> i < nxt s"
  shows "pool_inv s'"
proof -
  have late: "late_handed s' = late_handed s"
    using es by (simp add: late_handed_def tr after_cancel_append after_cancel_none)
  have D: "i \<notin> set (fetched (trace s')) \<and> (\<forall>t. Run i t \<notin> set (tasks s'))"
    if i: "i \<in> set (late_handed s')" for i
  proof -
    from i late have il: "i \<in> set (late_handed s)" by simp
    with inv have old: "i \<notin> set (fetched (trace s))" "\<forall>t. Run i t \<notin> set (tasks s)"
      by (auto simp: pool_inv_def)
    from il have "late_handed s \<noteq> []" by auto
    with inv have "quitChan s" using late_handed_none by blast
    with vr have "v \<noteq> Run i t" for t by auto
    with old f il show ?thesis by (auto simp: tr ts dest!: in_set_updateD)
  qed
  have E: "i \<notin> set (fetched (trace s'))
      \<and> (\<forall>t. Run i t \<notin> set (tasks s') \<and> Try i t \<notin> set (tasks s'))"
    if i: "nxt s' \<le> i" for i
  proof -
    from i same have ge: "nxt s \<le> i" by simp
    with inv have old: "i \<notin> set (fetched (trace s))"
      "\<forall>t. Run i t \<notin> set (tasks s) \<and> Try i t \<notin> set (tasks s)"
      by (simp_all add: pool_inv_def)
    from ge vr vt have "v \<noteq> Run i t" "v \<noteq> Try i t" for t by auto
    with old f ge show ?thesis by (auto simp: tr ts dest!: in_set_updateD)
  qed
  from inv es have "(quitChan s' \<longleftrightarrow> Cancelled \<in> set (trace s'))
      \<and> (quitChan s' \<longleftrightarrow> (\<exists>e. returned s' = Some (Some e)))
      \<and> (\<forall>e. returned s' = Some (Some e) \<longrightarrow>
           (\<exists>oks r. received (trace s') = oks @ [r] \<and> ResErr r = Some e
              \<and> (\<forall>r' \<in> set oks. ResErr r' = None)))
      \<and> ((\<forall>e. returned s' \<noteq> Some (Some e)) \<longrightarrow> (\<forall>r \<in> set (received (trace s')). ResErr r = None))"
    by (auto simp: pool_inv_def tr same)
  with D E show ?thesis unfolding pool_inv_def by blast
qed

lemma held_handed:
  assumes "pool_inv s" and "w < length (tasks s)"
  shows "tasks s ! w = Try i t \<Longrightarrow> i < nxt s"
    and "tasks s ! w = Run i t \<Longrightarrow> i < nxt s \<and> i \<notin> set (late_handed s)"
proof -
  from assms(2) have m: "tasks s ! w \<in> set (tasks s)" by simp
  show "tasks s ! w = Try i t \<Longrightarrow> i < nxt s"
    using assms(1) m unfolding pool_inv_def by (metis not_le)
  show "tasks s ! w = Run i t \<Longrightarrow> i < nxt s \<and> i \<notin> set (late_handed s)"
    using assms(1) m unfolding pool_inv_def by (metis not_le)
qed

lemma pool_inv_task:
  assumes inv: "pool_inv s" and st: "task_step h ws w s = Some s'"
  shows "pool_inv s'"
proof -
  from st have w: "w < length (tasks s)" by (auto simp: task_step_def split: if_splits)
  note held = held_handed [OF inv w]
  show ?thesis
  proof (cases "tasks s ! w")
    case Recv
    with st w have "s' = s\<lparr>tasks := (tasks s)[w := Done]\<rparr>"
      by (auto simp: task_step_def split: if_splits)
    then show ?thesis
      by (intro pool_inv_task_update [OF inv, where es = "[]" and w = w and v = Done]) simp_all
  next
    case (Try i t)
    show ?thesis
    proof (cases "quitChan s")
      case True
      with Try st w have "s' = s\<lparr>tasks := (tasks s)[w := Done]\<rparr>"
        by (auto simp: task_step_def)
      then show ?thesis
        by (intro pool_inv_task_update [OF inv, where es = "[]" and w = w and v = Done]) simp_all
    next
      case False
      with Try st w have "s' = s\<lparr>tasks := (tasks s)[w := Run i (t + 1)]\<rparr>"
        by (auto simp: task_step_def)
      with False held(1) [OF Try] show ?thesis
        by (intro pool_inv_task_update [OF inv, where es = "[]" and w = w
              and v = "Run i (t + 1)"]) simp_all
    qed
  next
    case (Run i t)
    from held(2) [OF Run] have i: "i < nxt s" "i \<notin> set (late_handed s)" by simp_all
    obtain r fs' where d: "downloadSegment h (ws i t) (staging s) (store s ! i) = (r, fs')"
      by (cases "downloadSegment h (ws i t) (staging s) (store s ! i)")
    show ?thesis
    proof (cases r)
      case None
      with Run d st w have "s' = s\<lparr>staging := fs', tasks := (tasks s)[w := SendOk i],
          trace := trace s @ [Fetched i]\<rparr>"
        by (auto simp: task_step_def)
      with i show ?thesis
        by (intro pool_inv_task_update [OF inv, where es = "[Fetched i]" and w = w
              and v = "SendOk i"]) simp_all
    next
      case (Some err)
      show ?thesis
      proof (cases "retryable err t")
        case True
        with Some Run d st w have "s' = s\<lparr>staging := fs', tasks := (tasks s)[w := Try i t],
            trace := trace s @ [Fetched i, Slept Second]\<rparr>"
          by (auto simp: task_step_def)
        with i show ?thesis
          by (intro pool_inv_task_update [OF inv, where es = "[Fetched i, Slept Second]"
                and w = w and v = "Try i t"]) simp_all
      next
        case False
        with Some Run d st w have "s' = s\<lparr>staging := fs',
            tasks := (tasks s)[w := SendErr i err], trace := trace s @ [Fetched i]\<rparr>"
          by (auto simp: task_step_def)
        with i show ?thesis
          by (intro pool_inv_task_update [OF inv, where es = "[Fetched i]" and w = w
                and v = "SendErr i err"]) simp_all
      qed
    qed
  next
    case (SendErr i err)
    with st w have "s' = s\<lparr>resultChan := resultChan s @ [failure (store s ! i) err],
        tasks := (tasks s)[w := Done], trace := trace s @ [Sent (failure (store s ! i) err)]\<rparr>"
      by (auto simp: task_step_def split: if_splits)
    then show ?thesis
      by (intro pool_inv_task_update [OF inv,
            where es = "[Sent (failure (store s ! i) err)]" and w = w and v = Done]) simp_all
  next
    case (SendOk i)
    with st w have "s' = s\<lparr>resultChan := resultChan s @ [success (store s ! i)],
        tasks := (tasks s)[w := Recv], trace := trace s @ [Sent (success (store s ! i))]\<rparr>"
      by (auto simp: task_step_def split: if_splits)
    then show ?thesis
      by (intro pool_inv_task_update [OF inv,
            where es = "[Sent (success (store s ! i))]" and w = w and v = Recv]) simp_all
  next
    case Done
    with st w show ?thesis by (simp add: task_step_def)
  qed
qed

lemma pool_inv_step: "pool_inv s \<Longrightarrow> step pj h ws m s = Some s' \<Longrightarrow> pool_inv s'"
  by (cases m)
    (auto intro: pool_inv_assign pool_inv_hand pool_inv_stop pool_inv_task pool_inv_wait
      pool_inv_take_finished pool_inv_take_result)

lemma pool_inv_run: "pool_inv s \<Longrightarrow> run pj h ws ms s = Some s' \<Longrightarrow> pool_inv s'"
proof (induction ms arbitrary: s)
  case Nil
  then show ?case by simp
next
  case (Cons m ms)
  from Cons.prems(2) obtain s1 where
    a: "step pj h ws m s = Some s1" and b: "run pj h ws ms s1 = Some s'"
    by (auto split: option.splits)
  from pool_inv_step [OF Cons.prems(1) a] b show ?case by (rule Cons.IH)
qed


lemma running_update:
  "w < length ts \<Longrightarrow>
   mset (running (ts[w := v])) + mset (running [ts ! w]) = mset (running ts) + mset (running [v])"
proof (induction ts arbitrary: w)
  case Nil
  then show ?case by simp
next
  case (Cons t ts)
  show ?case
  proof (cases w)
    case 0
    then show ?thesis by (cases t; cases v) simp_all
  next
    case (Suc k)
    with Cons.prems have "k < length ts" by simp
    from Cons.IH [OF this] Suc show ?thesis by (cases t) simp_all
  qed
qed

lemma quit_step:
  assumes q: "quitChan s" and st: "step pj h ws m s = Some s'"
  shows "quitChan s' \<and> length (tasks s') = length (tasks s)
    \<and> (\<exists>es. trace s' = trace s @ es
          \<and> mset (fetched es) + mset (running (tasks s')) = mset (running (tasks s)))
    \<and> (\<forall>w<length (tasks s). \<not> past_check (tasks s ! w) \<longrightarrow> \<not> past_check (tasks s' ! w))"
proof (cases m)
  case Assign
  with q st show ?thesis by (auto simp: assign_step_def split: if_splits)
next
  case (Hand w)
  with st have s': "s' = s\<lparr>tasks := (tasks s)[w := receive (store s ! nxt s) (nxt s)],
      nxt := nxt s + 1, dispatcher := Assigning, trace := trace s @ [Handed (nxt s) w]\<rparr>"
    and w: "w < length (tasks s)" and at: "tasks s ! w = Recv"
    by (auto simp: hand_step_def split: if_splits)
  from running_update [OF w, of "receive (store s ! nxt s) (nxt s)"] at
  have "mset (running (tasks s')) = mset (running (tasks s))"
    by (simp add: s' receive_def split: if_splits)
  moreover have "\<not> past_check (tasks s' ! v)" if "v < length (tasks s)" "\<not> past_check (tasks s ! v)" for v
    using that by (cases "v = w") (auto simp: s' receive_def past_check_def)
  ultimately show ?thesis using q by (auto simp: s')
next
  case Stop
  with q st show ?thesis by (auto simp: stop_step_def split: if_splits)
next
  case (Task w)
  with st have ts: "task_step h ws w s = Some s'" by simp
  then have w: "w < length (tasks s)" by (auto simp: task_step_def split: if_splits)
  note ru = running_update [OF w]
  have keep: "\<not> past_check (tasks s' ! v)"
    if "tasks s' = (tasks s)[w := t]" "\<not> past_check t" "v < length (tasks s)"
      "\<not> past_check (tasks s ! v)" for v t
    using that by (cases "v = w") auto
  show ?thesis
  proof (cases "tasks s ! w")
    case Recv
    with ts w have s': "s' = s\<lparr>tasks := (tasks s)[w := Done]\<rparr>"
      by (auto simp: task_step_def split: if_splits)
    from ru [of Done] Recv have "mset (running (tasks s')) = mset (running (tasks s))"
      by (simp add: s')
    with q keep [of Done] show ?thesis by (auto simp: s' past_check_def)
  next
    case (Try i t)
    with ts w q have s': "s' = s\<lparr>tasks := (tasks s)[w := Done]\<rparr>"
      by (auto simp: task_step_def)
    from ru [of Done] Try have "mset (running (tasks s')) = mset (running (tasks s))"
      by (simp add: s')
    with q keep [of Done] show ?thesis by (auto simp: s' past_check_def)
  next
    case (Run i t)
    obtain r fs' where d: "downloadSegment h (ws i t) (staging s) (store s ! i) = (r, fs')"
      by (cases "downloadSegment h (ws i t) (staging s) (store s ! i)")
    from Run d ts w obtain v es where
      s': "tasks s' = (tasks s)[w := v]" "trace s' = trace s @ es" "fetched es = [i]"
        "quitChan s' = quitChan s" and v: "\<not> past_check v" "running [v] = []"
      by (auto simp: task_step_def past_check_def split: option.splits if_splits)
    from ru [of v] Run v have "add_mset i (mset (running (tasks s'))) = mset (running (tasks s))"
      by (simp add: s')
    with q keep [OF s'(1) v(1)] s' show ?thesis by auto
  next
    case (SendErr i err)
    with ts w have s': "tasks s' = (tasks s)[w := Done]"
      "trace s' = trace s @ [Sent (failure (store s ! i) err)]" "quitChan s' = quitChan s"
      by (auto simp: task_step_def split: if_splits)
    from ru [of Done] SendErr have "mset (running (tasks s')) = mset (running (tasks s))"
      by (simp add: s')
    with q keep [OF s'(1)] s' show ?thesis by (auto simp: past_check_def)
  next
    case (SendOk i)
    with ts w have s': "tasks s' = (tasks s)[w := Recv]"
      "trace s' = trace s @ [Sent (success (store s ! i))]" "quitChan s' = quitChan s"
      by (auto simp: task_step_def split: if_splits)
    from ru [of Recv] SendOk have "mset (running (tasks s')) = mset (running (tasks s))"
      by (simp add: s')
    with q keep [OF s'(1)] s' show ?thesis by (auto simp: past_check_def)
  next
    case Done
    with ts w show ?thesis by (simp add: task_step_def)
  qed
next
  case Wait
  with q st show ?thesis by (auto simp: wait_step_def split: if_splits)
next
  case TakeFinished
  with q st show ?thesis by (auto simp: take_finished_def split: if_splits)
next
  case TakeResult
  with q st show ?thesis
    by (auto simp: take_result_def split: if_splits list.splits option.splits prod.splits)
qed

lemma quit_run:
  assumes "quitChan s" and "run pj h ws ms s = Some s'"
  shows "quitChan s' \<and> length (tasks s') = length (tasks s)
    \<and> (\<exists>es. trace s' = trace s @ es
          \<and> mset (fetched es) + mset (running (tasks s')) = mset (running (tasks s)))
    \<and> (\<forall>w<length (tasks s). \<not> past_check (tasks s ! w) \<longrightarrow> \<not> past_check (tasks s' ! w))"
  using assms
proof (induction ms arbitrary: s)
  case Nil
  then show ?case by simp
next
  case (Cons m ms)
  from Cons.prems(2) obtain s1 where
    a: "step pj h ws m s = Some s1" and b: "run pj h ws ms s1 = Some s'"
    by (auto split: option.splits)
  from quit_step [OF Cons.prems(1) a] obtain es1 where
    q1: "quitChan s1" and l1: "length (tasks s1) = length (tasks s)" and
    t1: "trace s1 = trace s @ es1"
      "mset (fetched es1) + mset (running (tasks s1)) = mset (running (tasks s))" and
    p1: "\<forall>w<length (tasks s). \<not> past_check (tasks s ! w) \<longrightarrow> \<not> past_check (tasks s1 ! w)"
    by blast
  from Cons.IH [OF q1 b] obtain es2 where
    q2: "quitChan s'" and l2: "length (tasks s') = length (tasks s1)" and
    t2: "trace s' = trace s1 @ es2"
      "mset (fetched es2) + mset (running (tasks s')) = mset (running (tasks s1))" and
    p2: "\<forall>w<length (tasks s1). \<not> past_check (tasks s1 ! w) \<longrightarrow> \<not> past_check (tasks s' ! w)"
    by blast
  from t1 t2 have "trace s' = trace s @ (es1 @ es2)"
    "mset (fetched (es1 @ es2)) + mset (running (tasks s')) = mset (running (tasks s))"
    by (simp_all add: ac_simps)
  then have "\<exists>es. trace s' = trace s @ es
          \<and> mset (fetched es) + mset (running (tasks s')) = mset (running (tasks s))"
    by blast
  with q2 l1 l2 p1 p2 show ?case by simp
qed

lemma cancel_step:
  assumes "\<not> quitChan s" and "step pj h ws m s = Some s'" and "quitChan s'"
  shows "m = TakeResult \<and> tasks s' = tasks s
    \<and> (\<exists>r e. trace s' = trace s @ [Received r, Cancelled, Returned (Some e)])"
proof (cases m)
  case Assign
  with assms show ?thesis by (auto simp: assign_step_def split: if_splits)
next
  case (Hand w)
  with assms show ?thesis by (auto simp: hand_step_def split: if_splits)
next
  case Stop
  with assms show ?thesis by (auto simp: stop_step_def split: if_splits)
next
  case (Task w)
  with assms show ?thesis
    by (auto simp: task_step_def split: if_splits task.splits prod.splits option.splits)
next
  case Wait
  with assms show ?thesis by (auto simp: wait_step_def split: if_splits)
next
  case TakeFinished
  with assms show ?thesis by (auto simp: take_finished_def split: if_splits)
next
  case TakeResult
  with assms show ?thesis
    by (auto simp: take_result_def split: if_splits list.splits option.splits prod.splits)
qed

lemma cancel_point:
  assumes "\<not> quitChan s0" and "run pj h ws ms s0 = Some s" and "quitChan s"
  shows "\<exists>ms1 ms2 sa s1. ms = ms1 @ TakeResult # ms2 \<and> run pj h ws ms1 s0 = Some sa
    \<and> \<not> quitChan sa \<and> step pj h ws TakeResult sa = Some s1 \<and> quitChan s1
    \<and> run pj h ws ms2 s1 = Some s"
  using assms
proof (induction ms arbitrary: s0)
  case Nil
  then show ?case by simp
next
  case (Cons m ms)
  from Cons.prems(2) obtain sx where
    a: "step pj h ws m s0 = Some sx" and b: "run pj h ws ms sx = Some s"
    by (auto split: option.splits)
  show ?case
  proof (cases "quitChan sx")
    case True
    from cancel_step [OF Cons.prems(1) a True] have m: "m = TakeResult" by simp
    have "m # ms = [] @ TakeResult # ms \<and> run pj h ws [] s0 = Some s0" by (simp add: m)
    with Cons.prems(1) a b True m show ?thesis by blast
  next
    case False
    from Cons.IH [OF False b Cons.prems(3)] obtain ms1 ms2 sa s1 where
      x: "ms = ms1 @ TakeResult # ms2" "run pj h ws ms1 sx = Some sa" "\<not> quitChan sa"
        "step pj h ws TakeResult sa = Some s1" "quitChan s1" "run pj h ws ms2 s1 = Some s"
      by blast
    from x(1,2) a have "m # ms = (m # ms1) @ TakeResult # ms2
        \<and> run pj h ws (m # ms1) s0 = Some sa"
      by simp
    with x show ?thesis by blast
  qed
qed

text \<open>
  A segment can be dispatched, and one can be fetched, after the cancellation.  With
  two tasks and three segments, let the fetch of the first segment be answered 404 and
  the second task, done with the second segment, wait at \<open>range segmentChan\<close>.  The
  coordinator receives the error, closes \<open>quitChan\<close> and returns.  The \<open>select\<close> of the
  dispatch routine now has both cases ready and may take the send: the third segment is
  handed to the second task after the cancellation.  In a second schedule the second
  task has passed its check of \<open>quitChan\<close> when the coordinator cancels, and calls
  \<open>downloadSegment\<close> afterwards.
\<close>

theorem dispatch_after_cancel_counterexample:
  "start (ex_h 2 False) Map.empty (ex_segs 3) = Inr ex_pool
   \<and> \<not> Option.is_none (run ex_join (ex_h 2 False) ex_pool_ws ex_late_dispatch ex_pool)
   \<and> returned (the (run ex_join (ex_h 2 False) ex_pool_ws ex_late_dispatch ex_pool))
       = Some (Some (Err ''404 Not Found''))
   \<and> after_cancel (trace (the (run ex_join (ex_h 2 False) ex_pool_ws ex_late_dispatch ex_pool)))
       = [Returned (Some (Err ''404 Not Found'')), Handed 2 1]
   \<and> \<not> Option.is_none (run ex_join (ex_h 2 False) ex_pool_ws ex_late_fetch ex_pool)
   \<and> after_cancel (trace (the (run ex_join (ex_h 2 False) ex_pool_ws ex_late_fetch ex_pool)))
       = [Returned (Some (Err ''404 Not Found'')), Fetched 1]"
proof -
  have "start (ex_h 2 False) Map.empty (ex_segs 3) = Inr ex_pool"
    by (simp add: start_def ex_pool_def ex_h_def numeral_2_eq_2)
  moreover have "\<not> Option.is_none (run ex_join (ex_h 2 False) ex_pool_ws ex_late_dispatch ex_pool)"
    by code_simp
  moreover have "returned (the (run ex_join (ex_h 2 False) ex_pool_ws ex_late_dispatch ex_pool))
       = Some (Some (Err ''404 Not Found''))"
    by code_simp
  moreover have
    "after_cancel (trace (the (run ex_join (ex_h 2 False) ex_pool_ws ex_late_dispatch ex_pool)))
       = [Returned (Some (Err ''404 Not Found'')), Handed 2 1]"
    by code_simp
  moreover have "\<not> Option.is_none (run ex_join (ex_h 2 False) ex_pool_ws ex_late_fetch ex_pool)"
    by code_simp
  moreover have
    "after_cancel (trace (the (run ex_join (ex_h 2 False) ex_pool_ws ex_late_fetch ex_pool)))
       = [Returned (Some (Err ''404 Not Found'')), Fetched 1]"
    by code_simp
  ultimately show ?thesis by blast
qed

text \<open>
  The dispatch routine can hand over more than one segment after the cancellation; the
  tasks that receive them return at their check.
\<close>

lemma late_dispatch_twice:
  "late_handed (the (run ex_join (ex_h 3 False) ex_pool_ws ex_late_twice
      (ex_pool\<lparr>store := ex_segs 5, tasks := [Recv, Recv, Recv]\<rparr>))) = [3, 4]
   \<and> fetched (trace (the (run ex_join (ex_h 3 False) ex_pool_ws ex_late_twice
      (ex_pool\<lparr>store := ex_segs 5, tasks := [Recv, Recv, Recv]\<rparr>)))) = [0, 1, 2]
   \<and> tasks (the (run ex_join (ex_h 3 False) ex_pool_ws ex_late_twice
      (ex_pool\<lparr>store := ex_segs 5, tasks := [Recv, Recv, Recv]\<rparr>))) = [Done, Done, Done]"
  by code_simp

text \<open>
  C2, amended.  In every state \<open>s\<close> the pool can reach, under any schedule: \<open>quitChan\<close> is
  closed exactly when the coordinator has returned an error, and closing it is the
  cancellation; the error the coordinator returns is the error of the last result it
  has received, all results received before it are successes, so it is the first error
  the coordinator observes, and the coordinator has received no error unless it has
  returned one; once the coordinator has returned it receives nothing more, so later
  errors are discarded; a segment handed to a fetch task after the cancellation is
  never fetched.  A fetch task that stands at its check of \<open>quitChan\<close> after the
  cancellation, before a first attempt or before a retry, returns without calling
  \<open>downloadSegment\<close> and without sending a result.  And when \<open>quitChan\<close> is closed, the
  schedule has a step at which the coordinator closed it, in a state \<open>sa\<close>: a task that
  was not past the check in \<open>sa\<close> is not past it in \<open>s\<close>, and the calls of
  \<open>downloadSegment\<close> after the cancellation, together with the tasks still past the
  check, are the tasks that were past the check in \<open>sa\<close>, each counted once.
\<close>

theorem first_error_cancels:
  assumes "start h fs segs = Inr s0" and "run pjoin h ws ms s0 = Some s"
  shows "(quitChan s \<longleftrightarrow> (\<exists>e. returned s = Some (Some e)))
    \<and> (quitChan s \<longleftrightarrow> Cancelled \<in> set (trace s))
    \<and> (\<forall>e. returned s = Some (Some e) \<longrightarrow>
          (\<exists>oks r. received (trace s) = oks @ [r] \<and> ResErr r = Some e
             \<and> (\<forall>r' \<in> set oks. ResErr r' = None)))
    \<and> ((\<forall>e. returned s \<noteq> Some (Some e)) \<longrightarrow> (\<forall>r \<in> set (received (trace s)). ResErr r = None))
    \<and> (returned s \<noteq> None \<longrightarrow>
          step pjoin h ws TakeResult s = None \<and> step pjoin h ws TakeFinished s = None)
    \<and> set (late_handed s) \<inter> set (fetched (trace s)) = {}
    \<and> (\<forall>w i n. quitChan s \<and> w < length (tasks s) \<and> tasks s ! w = Try i n \<longrightarrow>
          (\<exists>s'. step pjoin h ws (Task w) s = Some s' \<and> tasks s' = (tasks s)[w := Done]
             \<and> trace s' = trace s \<and> staging s' = staging s \<and> resultChan s' = resultChan s))
    \<and> (quitChan s \<longrightarrow>
          (\<exists>ms1 ms2 sa. ms = ms1 @ TakeResult # ms2 \<and> run pjoin h ws ms1 s0 = Some sa
             \<and> \<not> quitChan sa \<and> length (tasks s) = length (tasks sa)
             \<and> (\<forall>w<length (tasks sa). \<not> past_check (tasks sa ! w) \<longrightarrow> \<not> past_check (tasks s ! w))
             \<and> mset (fetched (after_cancel (trace s))) + mset (running (tasks s))
                 = mset (running (tasks sa))))"
proof -
  from assms have inv: "pool_inv s"
    by (blast intro: pool_inv_start pool_inv_run)
  have fin: "step pjoin h ws TakeResult s = None \<and> step pjoin h ws TakeFinished s = None"
    if "returned s \<noteq> None"
    using that by (auto simp: take_result_def take_finished_def)
  have chk: "\<exists>s'. step pjoin h ws (Task w) s = Some s' \<and> tasks s' = (tasks s)[w := Done]
             \<and> trace s' = trace s \<and> staging s' = staging s \<and> resultChan s' = resultChan s"
    if "quitChan s \<and> w < length (tasks s) \<and> tasks s ! w = Try i n" for w i n
    using that by (simp add: task_step_def)
  have late: "\<exists>ms1 ms2 sa. ms = ms1 @ TakeResult # ms2 \<and> run pjoin h ws ms1 s0 = Some sa
             \<and> \<not> quitChan sa \<and> length (tasks s) = length (tasks sa)
             \<and> (\<forall>w<length (tasks sa). \<not> past_check (tasks sa ! w) \<longrightarrow> \<not> past_check (tasks s ! w))
             \<and> mset (fetched (after_cancel (trace s))) + mset (running (tasks s))
                 = mset (running (tasks sa))"
    if q: "quitChan s"
  proof -
    from assms(1) have q0: "\<not> quitChan s0" by (auto simp: start_def split: if_splits)
    from cancel_point [OF q0 assms(2) q] obtain ms1 ms2 sa s1 where
      x: "ms = ms1 @ TakeResult # ms2" "run pjoin h ws ms1 s0 = Some sa" "\<not> quitChan sa"
        "step pjoin h ws TakeResult sa = Some s1" "quitChan s1" "run pjoin h ws ms2 s1 = Some s"
      by blast
    from cancel_step [OF x(3,4,5)] obtain r e where
      c: "tasks s1 = tasks sa" "trace s1 = trace sa @ [Received r, Cancelled, Returned (Some e)]"
      by blast
    from assms(1) x(2) have "pool_inv sa" by (blast intro: pool_inv_start pool_inv_run)
    with x(3) have nc: "Cancelled \<notin> set (trace sa)" by (simp add: pool_inv_def)
    from quit_run [OF x(5,6)] obtain es where
      l: "length (tasks s) = length (tasks s1)" and
      t: "trace s = trace s1 @ es"
        "mset (fetched es) + mset (running (tasks s)) = mset (running (tasks s1))" and
      p: "\<forall>w<length (tasks s1). \<not> past_check (tasks s1 ! w) \<longrightarrow> \<not> past_check (tasks s ! w)"
      by blast
    from nc have "after_cancel (trace sa @ [Received r, Cancelled, Returned (Some e)] @ es)
        = Returned (Some e) # es"
      by (auto simp: after_cancel_def dropWhile_append)
    with t c have "fetched (after_cancel (trace s)) = fetched es" by simp
    with t c l p x show ?thesis by auto
  qed
  from inv fin chk late show ?thesis unfolding pool_inv_def by blast
qed

theorem first_error_cancels_witness:
  "start (ex_h 2 False) Map.empty (ex_segs 3) = Inr ex_pool
   \<and> \<not> Option.is_none
        (run ex_join (ex_h 2 False) ex_retry_ws (ex_until_cancel @ [Task 1, Task 1]) ex_pool)
   \<and> returned (the
        (run ex_join (ex_h 2 False) ex_retry_ws (ex_until_cancel @ [Task 1, Task 1]) ex_pool))
       = Some (Some (Err ''404 Not Found''))
   \<and> quitChan (the
        (run ex_join (ex_h 2 False) ex_retry_ws (ex_until_cancel @ [Task 1, Task 1]) ex_pool))
   \<and> received (trace (the
        (run ex_join (ex_h 2 False) ex_retry_ws (ex_until_cancel @ [Task 1, Task 1]) ex_pool)))
       = [failure (ex_seg 0) (Err ''404 Not Found'')]
   \<and> tasks (the (run ex_join (ex_h 2 False) ex_retry_ws (butlast ex_until_cancel) ex_pool))
       = [Done, Run 1 1]
   \<and> tasks (the (run ex_join (ex_h 2 False) ex_retry_ws (ex_until_cancel @ [Task 1]) ex_pool))
       = [Done, Try 1 1]
   \<and> after_cancel (trace (the
        (run ex_join (ex_h 2 False) ex_retry_ws (ex_until_cancel @ [Task 1, Task 1]) ex_pool)))
       = [Returned (Some (Err ''404 Not Found'')), Fetched 1, Slept Second]
   \<and> tasks (the
        (run ex_join (ex_h 2 False) ex_retry_ws (ex_until_cancel @ [Task 1, Task 1]) ex_pool))
       = [Done, Done]"
proof -
  let ?r = "run ex_join (ex_h 2 False) ex_retry_ws (ex_until_cancel @ [Task 1, Task 1]) ex_pool"
  have a: "start (ex_h 2 False) Map.empty (ex_segs 3) = Inr ex_pool"
    by (simp add: start_def ex_pool_def ex_h_def numeral_2_eq_2)
  have b: "\<not> Option.is_none ?r" by code_simp
  then have b': "?r = Some (the ?r)" by (simp add: Option.is_none_def)
  have c: "returned (the ?r) = Some (Some (Err ''404 Not Found''))" by code_simp
  have d: "received (trace (the ?r)) = [failure (ex_seg 0) (Err ''404 Not Found'')]"
    by code_simp
  have e: "tasks (the (run ex_join (ex_h 2 False) ex_retry_ws (butlast ex_until_cancel) ex_pool))
       = [Done, Run 1 1]"
    by code_simp
  have e': "tasks (the (run ex_join (ex_h 2 False) ex_retry_ws (ex_until_cancel @ [Task 1]) ex_pool))
       = [Done, Try 1 1]"
    by code_simp
  have f: "after_cancel (trace (the ?r))
      = [Returned (Some (Err ''404 Not Found'')), Fetched 1, Slept Second]"
    by code_simp
  have g: "tasks (the ?r) = [Done, Done]" by code_simp
  from first_error_cancels [OF a b'] c have "quitChan (the ?r)" by blast
  with a b c d e e' f g show ?thesis by blast
qed

text \<open>
  An error that a task has sent is not always received by the coordinator.  With
  a single task, let the fetch of the first segment be answered 404: the task sends the
  error into the buffered channel and returns, \<open>wait\<close> signals \<open>finishedChan\<close>, and the
  \<open>select\<close> of the coordinator, with both cases ready, may take \<open>finishedChan\<close>:
  \<open>downloadSegments\<close> returns nil and the error stays in the channel.
\<close>

lemma error_left_unread:
  "returned (the (run ex_join (ex_h 1 False) ex_pool_ws
      [Assign, Hand 0, Task 0, Task 0, Task 0, Wait, TakeFinished] (ex_pool\<lparr>tasks := [Recv]\<rparr>)))
     = Some None
   \<and> resultChan (the (run ex_join (ex_h 1 False) ex_pool_ws
      [Assign, Hand 0, Task 0, Task 0, Task 0, Wait, TakeFinished] (ex_pool\<lparr>tasks := [Recv]\<rparr>)))
     = [failure (ex_seg 0) (Err ''404 Not Found'')]"
  by code_simp

text \<open>
  C8.  The increment for a skipped segment can be lost.  Let there be one fetch task, the
  progress bar enabled, and a single segment marked \<open>Exists\<close>.  The task sends the
  success into the buffered channel without a call of \<open>downloadSegment\<close>, finds
  \<open>segmentChan\<close> closed and returns; \<open>wait\<close> signals \<open>finishedChan\<close>; the \<open>select\<close> of the
  coordinator, with both cases ready, may take \<open>finishedChan\<close>.  Then
  \<open>downloadSegments\<close> returns nil, the bar has not been incremented, and the success
  is still in the channel.  When the \<open>select\<close> takes the result first, the bar is
  incremented once.
\<close>

theorem skipped_increment_lost:
  assumes "workers h = 1" and "enableBar h" and "Exists seg"
  shows "\<exists>s0 s s'. start h fs [seg] = Inr s0
    \<and> run pj h ws [Assign, Hand 0, Task 0, Assign, Task 0, Wait, TakeFinished] s0 = Some s
    \<and> returned s = Some None \<and> increments s = 0 \<and> tasks s = [Done]
    \<and> resultChan s = [success (assign_path pj h seg)] \<and> received (trace s) = []
    \<and> trace s = [Handed 0 0, Sent (success (assign_path pj h seg)), Returned None]
    \<and> run pj h ws [Assign, Hand 0, Task 0, TakeResult, Assign, Task 0, Wait, TakeFinished] s0
        = Some s'
    \<and> returned s' = Some None \<and> increments s' = 1"
  using assms
  by (simp add: start_def assign_step_def hand_step_def task_step_def wait_step_def
      take_finished_def take_result_def receive_def assign_path_def aggregate_def success_def)

theorem skipped_increment_lost_witness:
  "workers (ex_h 1 False) = 1 \<and> enableBar (ex_h 1 False) \<and> Exists (hd ex_skipped)
   \<and> start (ex_h 1 False) ex_kept ex_skipped
       = Inr (ex_pool\<lparr>store := ex_skipped, tasks := [Recv], staging := ex_kept\<rparr>)
   \<and> increments (the (run ex_join (ex_h 1 False) ex_pool_ws
        [Assign, Hand 0, Task 0, Assign, Task 0, Wait, TakeFinished]
        (ex_pool\<lparr>store := ex_skipped, tasks := [Recv], staging := ex_kept\<rparr>))) = 0
   \<and> returned (the (run ex_join (ex_h 1 False) ex_pool_ws
        [Assign, Hand 0, Task 0, Assign, Task 0, Wait, TakeFinished]
        (ex_pool\<lparr>store := ex_skipped, tasks := [Recv], staging := ex_kept\<rparr>))) = Some None"
proof -
  let ?s0 = "ex_pool\<lparr>store := ex_skipped, tasks := [Recv], staging := ex_kept\<rparr>"
  have a: "workers (ex_h 1 False) = 1" by (simp add: ex_h_def)
  have b: "enableBar (ex_h 1 False)" by (simp add: ex_h_def)
  have c: "Exists (hd ex_skipped)" by (simp add: ex_skipped_def)
  have e: "[hd ex_skipped] = ex_skipped" by (simp add: ex_skipped_def)
  have d: "start (ex_h 1 False) ex_kept ex_skipped = Inr ?s0"
    by (simp add: start_def ex_pool_def ex_h_def)
  from skipped_increment_lost [OF a b c, of ex_kept ex_join ex_pool_ws] d
  have "increments (the (run ex_join (ex_h 1 False) ex_pool_ws
        [Assign, Hand 0, Task 0, Assign, Task 0, Wait, TakeFinished] ?s0)) = 0
      \<and> returned (the (run ex_join (ex_h 1 False) ex_pool_ws
        [Assign, Hand 0, Task 0, Assign, Task 0, Wait, TakeFinished] ?s0)) = Some None"
    unfolding e by auto
  with a b c d show ?thesis by blast
qed

subsection \<open>The fetch task inside the pool\<close>

text \<open>
  The two readings of lines 179-205 agree.  When a task of the pool holds a segment and
  runs alone, with room for one result in \<open>downloadResultChan\<close>, its steps have exactly
  the effects of \<open>fetch_task\<close> for the state of \<open>quitChan\<close> it finds: the same calls of
  \<open>downloadSegment\<close> and sleeps in the trace, the same result in the channel, the same
  staging directory, and the task ends at \<open>range segmentChan\<close> or has returned as
  \<open>fetch_task\<close> says.
\<close>

lemma run_append:
  "run pj h ws (ms @ ms') s = (case run pj h ws ms s of None \<Rightarrow> None | Some s' \<Rightarrow> run pj h ws ms' s')"
  by (induction ms arbitrary: s) (auto split: option.splits)

lemma run_replicate_add:
  "run pj h ws (replicate n m) s = Some s' \<Longrightarrow> run pj h ws (replicate k m) s' = Some s'' \<Longrightarrow>
   run pj h ws (replicate (n + k) m) s = Some s''"
  by (simp add: replicate_add run_append)

lemma sends_append [simp]: "sends (a @ b) = sends a @ sends b"
  by (induction a rule: sends.induct) simp_all

lemma solo_download_gen:
  assumes "w < length (tasks s)" and "tasks s ! w = Try i t"
    and "length (resultChan s) < length (tasks s)"
    and "download_loop h quit wsi seg t fs = (c, es, fs')"
    and "quit = (\<lambda>n. quitChan s)" and "wsi = ws i" and "seg = store s ! i" and "fs = staging s"
  shows "\<exists>n. run pj h ws (replicate n (Task w)) s
      = Some (s\<lparr>tasks := (tasks s)[w := (case c of Next \<Rightarrow> SendOk i | Return \<Rightarrow> Done)],
               staging := fs', trace := trace s @ map (event_of i) es,
               resultChan := resultChan s @ sends es\<rparr>)"
  using assms
proof (induction h quit wsi seg t fs arbitrary: s c es fs' rule: download_loop.induct)
  case (1 h quit wsi seg t fs)
  note w = "1.prems"(1) and at = "1.prems"(2) and room = "1.prems"(3) and dl0 = "1.prems"(4)
    and eqs = "1.prems"(5-8)
  from dl0 eqs
  have dl: "download_loop h (\<lambda>n. quitChan s) (ws i) (store s ! i) t (staging s) = (c, es, fs')"
    by simp
  show ?case
  proof (cases "quitChan s")
    case True
    with dl have r: "c = Return" "es = []" "fs' = staging s"
      by (subst (asm) download_loop.simps, simp)+
    from True w at have "run pj h ws (replicate 1 (Task w)) s
        = Some (s\<lparr>tasks := (tasks s)[w := Done]\<rparr>)"
      by (simp add: task_step_def)
    with r show ?thesis by (intro exI [of _ 1]) simp
  next
    case q: False
    let ?s1 = "s\<lparr>tasks := (tasks s)[w := Run i (t + 1)]\<rparr>"
    from q w at have s1: "step pj h ws (Task w) s = Some ?s1"
      by (simp add: task_step_def)
    obtain r fs1 where d: "downloadSegment h (ws i (t + 1)) (staging s) (store s ! i) = (r, fs1)"
      by (cases "downloadSegment h (ws i (t + 1)) (staging s) (store s ! i)")
    show ?thesis
    proof (cases r)
      case None
      with q d dl have r: "c = Next" "es = [Fetch (SeqId (store s ! i))]" "fs' = fs1"
        by (subst (asm) download_loop.simps, simp)+
      from None d w have "step pj h ws (Task w) ?s1
          = Some (s\<lparr>tasks := (tasks s)[w := SendOk i], staging := fs1,
                    trace := trace s @ [Fetched i]\<rparr>)"
        by (simp add: task_step_def)
      with s1 r have "run pj h ws (replicate 2 (Task w)) s
          = Some (s\<lparr>tasks := (tasks s)[w := SendOk i], staging := fs',
                    trace := trace s @ map (event_of i) es,
                    resultChan := resultChan s @ sends es\<rparr>)"
        by (simp add: numeral_2_eq_2)
      with r show ?thesis by (intro exI [of _ 2]) simp
    next
      case (Some err)
      show ?thesis
      proof (cases "retryable err (t + 1)")
        case False
        with Some q d dl have r: "c = Return"
          "es = [Fetch (SeqId (store s ! i)), Send (failure (store s ! i) err)]" "fs' = fs1"
          by (subst (asm) download_loop.simps, simp)+
        let ?s2 = "s\<lparr>tasks := (tasks s)[w := SendErr i err], staging := fs1,
                    trace := trace s @ [Fetched i]\<rparr>"
        from False Some d w have s2: "step pj h ws (Task w) ?s1 = Some ?s2"
          by (simp add: task_step_def)
        from w room have "step pj h ws (Task w) ?s2
            = Some (s\<lparr>tasks := (tasks s)[w := Done], staging := fs1,
                 trace := trace s @ [Fetched i, Sent (failure (store s ! i) err)],
                 resultChan := resultChan s @ [failure (store s ! i) err]\<rparr>)"
          by (simp add: task_step_def)
        with s1 s2 r have "run pj h ws (replicate 3 (Task w)) s
          = Some (s\<lparr>tasks := (tasks s)[w := Done], staging := fs',
                    trace := trace s @ map (event_of i) es,
                    resultChan := resultChan s @ sends es\<rparr>)"
          by (simp add: numeral_3_eq_3)
        with r show ?thesis by (intro exI [of _ 3]) simp
      next
        case True
        obtain c1 es1 fs2 where
          rec: "download_loop h quit wsi seg (t + 1) fs1 = (c1, es1, fs2)"
          by (cases "download_loop h quit wsi seg (t + 1) fs1") auto
        with True Some q d dl eqs have r: "c = c1"
          "es = Fetch (SeqId (store s ! i)) # Sleep Second # es1" "fs' = fs2"
          by (subst (asm) download_loop.simps, simp)+
        let ?s2 = "s\<lparr>tasks := (tasks s)[w := Try i (t + 1)], staging := fs1,
                    trace := trace s @ [Fetched i, Slept Second]\<rparr>"
        from True Some d w have s2: "step pj h ws (Task w) ?s1 = Some ?s2"
          by (simp add: task_step_def)
        from s1 s2 have two: "run pj h ws (replicate 2 (Task w)) s = Some ?s2"
          by (simp add: numeral_2_eq_2)
        have "\<exists>n. run pj h ws (replicate n (Task w)) ?s2
           = Some (?s2\<lparr>tasks := (tasks ?s2)[w := (case c1 of Next \<Rightarrow> SendOk i | Return \<Rightarrow> Done)],
               staging := fs2, trace := trace ?s2 @ map (event_of i) es1,
               resultChan := resultChan ?s2 @ sends es1\<rparr>)"
          using w room rec q d Some True eqs
          by (intro "1.IH" [where s = ?s2 and fs' = fs2]) simp_all
        then obtain n where "run pj h ws (replicate n (Task w)) ?s2
           = Some (?s2\<lparr>tasks := (tasks ?s2)[w := (case c1 of Next \<Rightarrow> SendOk i | Return \<Rightarrow> Done)],
               staging := fs2, trace := trace ?s2 @ map (event_of i) es1,
               resultChan := resultChan ?s2 @ sends es1\<rparr>)" ..
        from run_replicate_add [OF two this] r show ?thesis
          by (intro exI [of _ "2 + n"]) simp
      qed
    qed
  qed
qed


lemma sends_none: "filter is_Send es = [] \<Longrightarrow> sends es = []"
  by (induction es rule: sends.induct) (simp_all split: if_splits)

lemma fetch_task_in_pool:
  assumes w: "w < length (tasks s)" and at: "tasks s ! w = receive (store s ! i) i"
    and room: "length (resultChan s) < length (tasks s)"
    and ft: "fetch_task h (\<lambda>n. quitChan s) (ws i) (staging s) (store s ! i) = (c, es, fs')"
  shows "\<exists>n. run pj h ws (replicate n (Task w)) s
      = Some (s\<lparr>tasks := (tasks s)[w := (case c of Next \<Rightarrow> Recv | Return \<Rightarrow> Done)],
               staging := fs', trace := trace s @ map (event_of i) es,
               resultChan := resultChan s @ sends es\<rparr>)"
proof (cases "Exists (store s ! i)")
  case True
  with ft have r: "c = Next" "es = [Send (success (store s ! i))]" "fs' = staging s"
    by (simp_all add: fetch_task_def)
  from True at w room have "run pj h ws (replicate 1 (Task w)) s
      = Some (s\<lparr>tasks := (tasks s)[w := Recv],
                trace := trace s @ [Sent (success (store s ! i))],
                resultChan := resultChan s @ [success (store s ! i)]\<rparr>)"
    by (simp add: task_step_def receive_def)
  with r show ?thesis by (intro exI [of _ 1]) simp
next
  case False
  with at have t0: "tasks s ! w = Try i 0" by (simp add: receive_def)
  obtain c1 es1 fs1 where
    dl: "download_loop h (\<lambda>n. quitChan s) (ws i) (store s ! i) 0 (staging s) = (c1, es1, fs1)"
    by (cases "download_loop h (\<lambda>n. quitChan s) (ws i) (store s ! i) 0 (staging s)") auto
  let ?s1 = "s\<lparr>tasks := (tasks s)[w := (case c1 of Next \<Rightarrow> SendOk i | Return \<Rightarrow> Done)],
               staging := fs1, trace := trace s @ map (event_of i) es1,
               resultChan := resultChan s @ sends es1\<rparr>"
  from solo_download_gen [where ws = ws and pj = pj and s = s and w = w and i = i and t = 0
      and h = h and quit = "\<lambda>n. quitChan s" and wsi = "ws i" and seg = "store s ! i"
      and fs = "staging s" and c = c1 and es = es1 and fs' = fs1] w t0 room dl
  obtain n where n: "run pj h ws (replicate n (Task w)) s = Some ?s1" by auto
  show ?thesis
  proof (cases c1)
    case Return
    with False ft dl have "c = Return" "es = es1" "fs' = fs1"
      by (simp_all add: fetch_task_def)
    with n Return show ?thesis by (intro exI [of _ n]) simp
  next
    case Next
    with False ft dl have r: "c = Next" "es = es1 @ [Send (success (store s ! i))]" "fs' = fs1"
      by (simp_all add: fetch_task_def)
    from download_loop_sends [OF dl] Next have "sends es1 = []" by (simp add: sends_none)
    with Next w room have "run pj h ws (replicate 1 (Task w)) ?s1
        = Some (?s1\<lparr>tasks := (tasks ?s1)[w := Recv],
              trace := trace ?s1 @ [Sent (success (store s ! i))],
              resultChan := resultChan ?s1 @ [success (store s ! i)]\<rparr>)"
      by (simp add: task_step_def)
    from run_replicate_add [OF n this] r Next \<open>sends es1 = []\<close> show ?thesis
      by (intro exI [of _ "n + 1"]) simp
  qed
qed

end
